theory Spec2Isabelle
  imports Main "HOL-Library.Word" "HOL-Library.Monad_Syntax"
begin

section \<open>Data model of \<^verbatim>\<open>skinny_mutex.c\<close>\<close>

text \<open>
  Addresses are natural numbers. The word of a skinny mutex holds \<open>0\<close> (not held),
  \<open>1\<close> (held, not contended) or the address of a peg or of a fat mutex.
  \<^verbatim>\<open>struct common\<close> is the tag of the \<open>obj\<close> datatype: \<open>PegObj\<close> has
  \<^verbatim>\<open>common.peg = 1\<close>, \<open>FatObj\<close> has \<^verbatim>\<open>common.peg = 0\<close>.
  The fields of type \<^verbatim>\<open>long\<close> are 64-bit words, the peg's refcount is a byte.
  The pthread mutex and condition variable inside a fat mutex are named by the address
  of the fat mutex; what is done to them is recorded in the trace, as is every call of
  \<^verbatim>\<open>malloc\<close>, \<^verbatim>\<open>free\<close> and \<^verbatim>\<open>atomic_sub_and_test\<close> (\<open>AtomicSub p x r\<close>: \<open>x\<close> was
  subtracted from the refcount of the peg at \<open>p\<close>, which left \<open>r\<close>).
\<close>

type_synonym addr = nat

record peg =
  peg_refcount :: "8 word"
  peg_next :: addr

record fat_mutex =
  held :: bool
  waiters :: "64 word"
  refcount :: "64 word"
  transfer_gen :: "64 word"
  transfers :: "64 word"

datatype obj = PegObj peg | FatObj fat_mutex

datatype event =
    Malloc addr
  | Free addr
  | MutexInit addr
  | MutexDestroy addr
  | MutexLock addr
  | MutexUnlock addr
  | CondInit addr
  | CondDestroy addr
  | CondSignal addr
  | CondBroadcast addr
  | CondWait addr addr
  | CondTimedWait addr addr nat
  | SetCancelState
  | CleanupPush addr
  | CleanupPop addr
  | AtomicSub addr "8 word" "8 word"

record state =
  val :: "addr \<Rightarrow> addr"
  heap :: "addr \<rightharpoonup> obj"
  trace :: "event list"

text \<open>
  The host: the status every pthread call returns and the address every \<^verbatim>\<open>malloc\<close>
  returns (\<open>0\<close> is \<^verbatim>\<open>NULL\<close>), both as functions of the calls made so far, and what
  the other threads do to the shared memory while this thread is blocked in a wait on a
  condition variable. Between two such waits the code of one call runs without
  interleaving; the arguments \<open>head\<close> and \<open>p\<close> of the inner functions are values read
  earlier and need not be the current word. \<open>indeterminate\<close> is the value found in an
  automatic variable that was never assigned.
\<close>

record host =
  status :: "event list \<Rightarrow> event \<Rightarrow> int"
  alloc :: "event list \<Rightarrow> addr"
  others :: "event list \<Rightarrow> (addr \<Rightarrow> addr) \<times> (addr \<rightharpoonup> obj) \<Rightarrow> (addr \<Rightarrow> addr) \<times> (addr \<rightharpoonup> obj)"
  indeterminate :: addr

datatype ret = Ret int | Abort

definition ENOMEM :: int where "ENOMEM = 12"
definition EBUSY :: int where "EBUSY = 16"
definition EPERM :: int where "EPERM = 1"
definition EAGAIN :: int where "EAGAIN = 11"

section \<open>Host primitives\<close>

definition host_call :: "host \<Rightarrow> event \<Rightarrow> state \<Rightarrow> int \<times> state" where
  "host_call h ev st = (status h (trace st) ev, st\<lparr>trace := trace st @ [ev]\<rparr>)"

definition interfere :: "host \<Rightarrow> state \<Rightarrow> state" where
  "interfere h st =
     (case others h (trace st) (val st, heap st) of
        (v, hp) \<Rightarrow> st\<lparr>val := v, heap := hp\<rparr>)"

definition malloc :: "host \<Rightarrow> state \<Rightarrow> addr \<times> state" where
  "malloc h st = (let a = alloc h (trace st) in (a, st\<lparr>trace := trace st @ [Malloc a]\<rparr>))"

definition free :: "addr \<Rightarrow> state \<Rightarrow> state" where
  "free a st = st\<lparr>heap := (heap st)(a := None), trace := trace st @ [Free a]\<rparr>"

definition pthread_mutex_init :: "host \<Rightarrow> addr \<Rightarrow> state \<Rightarrow> int \<times> state" where
  "pthread_mutex_init h m st = host_call h (MutexInit m) st"

definition pthread_mutex_destroy :: "host \<Rightarrow> addr \<Rightarrow> state \<Rightarrow> int \<times> state" where
  "pthread_mutex_destroy h m st = host_call h (MutexDestroy m) st"

definition pthread_mutex_lock :: "host \<Rightarrow> addr \<Rightarrow> state \<Rightarrow> int \<times> state" where
  "pthread_mutex_lock h m st = host_call h (MutexLock m) st"

definition pthread_mutex_unlock :: "host \<Rightarrow> addr \<Rightarrow> state \<Rightarrow> int \<times> state" where
  "pthread_mutex_unlock h m st = host_call h (MutexUnlock m) st"

definition pthread_cond_init :: "host \<Rightarrow> addr \<Rightarrow> state \<Rightarrow> int \<times> state" where
  "pthread_cond_init h c st = host_call h (CondInit c) st"

definition pthread_cond_destroy :: "host \<Rightarrow> addr \<Rightarrow> state \<Rightarrow> int \<times> state" where
  "pthread_cond_destroy h c st = host_call h (CondDestroy c) st"

definition pthread_cond_signal :: "host \<Rightarrow> addr \<Rightarrow> state \<Rightarrow> int \<times> state" where
  "pthread_cond_signal h c st = host_call h (CondSignal c) st"

definition pthread_cond_broadcast :: "host \<Rightarrow> addr \<Rightarrow> state \<Rightarrow> int \<times> state" where
  "pthread_cond_broadcast h c st = host_call h (CondBroadcast c) st"

text \<open>A wait gives the mutex up, lets the other threads run, and takes the mutex back.\<close>

definition pthread_cond_wait :: "host \<Rightarrow> addr \<Rightarrow> addr \<Rightarrow> state \<Rightarrow> int \<times> state" where
  "pthread_cond_wait h c m st =
     (case host_call h (CondWait c m) st of (res, st1) \<Rightarrow> (res, interfere h st1))"

definition pthread_cond_timedwait :: "host \<Rightarrow> addr \<Rightarrow> addr \<Rightarrow> nat \<Rightarrow> state \<Rightarrow> int \<times> state" where
  "pthread_cond_timedwait h c m t st =
     (case host_call h (CondTimedWait c m t) st of (res, st1) \<Rightarrow> (res, interfere h st1))"

definition pthread_setcancelstate :: "host \<Rightarrow> state \<Rightarrow> int \<times> state" where
  "pthread_setcancelstate h st = host_call h SetCancelState st"

section \<open>Atomic operations\<close>

definition CAS :: "addr \<Rightarrow> addr \<Rightarrow> addr \<Rightarrow> state \<Rightarrow> bool \<times> state" where
  "CAS s a b st =
     (if val st s = a then (True, st\<lparr>val := (val st)(s := b)\<rparr>) else (False, st))"

definition atomic_xchg :: "addr \<Rightarrow> addr \<Rightarrow> state \<Rightarrow> addr \<times> state" where
  "atomic_xchg s new st = (val st s, st\<lparr>val := (val st)(s := new)\<rparr>)"

text \<open>The result is the byte after the subtraction; \<open>None\<close> when \<open>p\<close> is not a peg.\<close>

definition atomic_sub_and_test :: "addr \<Rightarrow> 8 word \<Rightarrow> state \<Rightarrow> (8 word \<times> state) option" where
  "atomic_sub_and_test p x st =
     (case heap st p of
        Some (PegObj pg) \<Rightarrow>
          (let r = peg_refcount pg - x
           in Some (r, st\<lparr>heap := (heap st)(p \<mapsto> PegObj (pg\<lparr>peg_refcount := r\<rparr>)),
                           trace := trace st @ [AtomicSub p x r]\<rparr>))
      | _ \<Rightarrow> None)"

definition recover :: "int \<Rightarrow> int \<Rightarrow> ret" where
  "recover res1 res2 =
     (if res2 = 0 then Ret res1
      else if res1 = 0 then Ret res2
      else Abort)"

text \<open>\<open>recover\<close> applied to the result of a call that may itself have aborted.\<close>

definition recover_ret :: "int \<Rightarrow> ret \<Rightarrow> ret" where
  "recover_ret res1 r2 = (case r2 of Abort \<Rightarrow> Abort | Ret res2 \<Rightarrow> recover res1 res2)"

section \<open>Access to a fat mutex through a pointer\<close>

definition fat_at :: "state \<Rightarrow> addr \<Rightarrow> fat_mutex option" where
  "fat_at st a = (case heap st a of Some (FatObj f) \<Rightarrow> Some f | _ \<Rightarrow> None)"

definition fat_set :: "addr \<Rightarrow> fat_mutex \<Rightarrow> state \<Rightarrow> state" where
  "fat_set a f st = st\<lparr>heap := (heap st)(a \<mapsto> FatObj f)\<rparr>"

definition fat_modify :: "addr \<Rightarrow> (fat_mutex \<Rightarrow> fat_mutex) \<Rightarrow> state \<Rightarrow> state option" where
  "fat_modify a g st = (case fat_at st a of None \<Rightarrow> None | Some f \<Rightarrow> Some (fat_set a (g f) st))"

section \<open>\<^verbatim>\<open>fat_mutex_peg\<close>\<close>

text \<open>
  Lines 231-243, the loop that installs the peg. The result is \<open>(True, p, st)\<close> when the
  peg is installed on top of \<open>p\<close>, and \<open>(False, p, st)\<close> when the word no longer holds a
  pointer and the peg has been freed.
\<close>

partial_function (option) peg_install ::
  "addr \<Rightarrow> addr \<Rightarrow> addr \<Rightarrow> state \<Rightarrow> (bool \<times> addr \<times> state) option" where
  "peg_install skinny peg p st =
     (case CAS skinny p peg st of
        (ok, st1) \<Rightarrow>
          if ok then Some (True, p, st1)
          else
            (let p1 = val st1 skinny in
             if p1 \<le> 1 then Some (False, p1, free peg st1)
             else (case heap st1 peg of
                     Some (PegObj pg) \<Rightarrow>
                       peg_install skinny peg p1
                         (st1\<lparr>heap := (heap st1)(peg \<mapsto> PegObj (pg\<lparr>peg_next := p1\<rparr>))\<rparr>)
                   | _ \<Rightarrow> None)))"

text \<open>Lines 248-249: follow \<open>next\<close> until the object is not a peg.\<close>

partial_function (option) peg_find_fat :: "state \<Rightarrow> addr \<Rightarrow> addr option" where
  "peg_find_fat st p =
     (case heap st p of
        None \<Rightarrow> None
      | Some (FatObj f) \<Rightarrow> Some p
      | Some (PegObj pg) \<Rightarrow> peg_find_fat st (peg_next pg))"

text \<open>
  Lines 274-301: the walk from the old value of the skinny mutex. The result is
  \<open>peg_refcount_decr\<close> and the state.
\<close>

partial_function (option) peg_walk ::
  "addr \<Rightarrow> addr \<Rightarrow> addr \<Rightarrow> state \<Rightarrow> (32 word \<times> state) option" where
  "peg_walk peg fat p st =
     (if p = peg then Some (2, st)
      else if p = fat then
        map_option (\<lambda>st1. (1, st1)) (fat_modify fat (\<lambda>f. f\<lparr>refcount := refcount f - 1\<rparr>) st)
      else
        (case atomic_sub_and_test p 1 st of
           None \<Rightarrow> None
         | Some (r, st1) \<Rightarrow>
             if r \<noteq> 0 then Some (1, st1)
             else (case heap st1 p of
                     Some (PegObj pg) \<Rightarrow> peg_walk peg fat (peg_next pg) (free p st1)
                   | _ \<Rightarrow> None)))"

text \<open>Lines 303-323: release this thread's peg, and what its release sets free.\<close>

partial_function (option) peg_retire ::
  "addr \<Rightarrow> addr \<Rightarrow> 32 word \<Rightarrow> state \<Rightarrow> state option" where
  "peg_retire fat peg decr st =
     (case atomic_sub_and_test peg (ucast decr) st of
        None \<Rightarrow> None
      | Some (r, st1) \<Rightarrow>
          if r \<noteq> 0 then Some st1
          else (case heap st1 peg of
                  Some (PegObj pg) \<Rightarrow>
                    (let p = peg_next pg; st2 = free peg st1 in
                     if p = fat then fat_modify fat (\<lambda>f. f\<lparr>refcount := refcount f - 1\<rparr>) st2
                     else peg_retire fat p 1 st2)
                | _ \<Rightarrow> None))"

text \<open>
  Lines 264-323: the second half of \<^verbatim>\<open>fat_mutex_peg\<close>, which runs with the mutex of the
  fat mutex taken: exchange, increment, then the two walks.
\<close>

definition peg_release :: "addr \<Rightarrow> addr \<Rightarrow> addr \<Rightarrow> state \<Rightarrow> state option" where
  "peg_release skinny peg fat st =
     (case atomic_xchg skinny fat st of
        (p, st1) \<Rightarrow>
          (case fat_modify fat (\<lambda>f. f\<lparr>refcount := refcount f + 1\<rparr>) st1 of
             None \<Rightarrow> None
           | Some st2 \<Rightarrow>
               (case peg_walk peg fat p st2 of
                  None \<Rightarrow> None
                | Some (decr, st3) \<Rightarrow> peg_retire fat peg decr st3)))"

text \<open>
  The result is the status, what was stored through \<open>fatp\<close> (\<open>None\<close> when nothing was
  stored), and the state. No result (\<open>None\<close>) stands for a walk that never ends or
  that reads freed memory.
\<close>

definition fat_mutex_peg ::
  "host \<Rightarrow> addr \<Rightarrow> addr \<Rightarrow> state \<Rightarrow> (int \<times> addr option \<times> state) option" where
  "fat_mutex_peg h skinny p st =
     (case malloc h st of
        (peg, st0) \<Rightarrow>
          if peg = 0 then Some (ENOMEM, None, st0)
          else
            (case peg_install skinny peg p
                    (st0\<lparr>heap := (heap st0)(peg \<mapsto> PegObj \<lparr>peg_refcount = 2, peg_next = p\<rparr>)\<rparr>) of
               None \<Rightarrow> None
             | Some (False, p1, st1) \<Rightarrow> Some (- 1, None, st1)
             | Some (True, p1, st1) \<Rightarrow>
                 (case peg_find_fat st1 p1 of
                    None \<Rightarrow> None
                  | Some fat \<Rightarrow>
                      (case pthread_mutex_lock h fat st1 of
                         (res, st2) \<Rightarrow>
                           map_option (\<lambda>st3. (res, Some fat, st3))
                             (peg_release skinny peg fat st2)))))"

section \<open>\<^verbatim>\<open>skinny_mutex_promote\<close> and \<^verbatim>\<open>fat_mutex_get\<close>\<close>

text \<open>The three labels that end \<^verbatim>\<open>skinny_mutex_promote\<close>, each falling into the next.\<close>

definition promote_err_mutex_init :: "addr \<Rightarrow> int \<Rightarrow> state \<Rightarrow> int \<times> addr option \<times> state" where
  "promote_err_mutex_init fat res st = (res, Some fat, free fat st)"

definition promote_err_cond_init ::
  "host \<Rightarrow> addr \<Rightarrow> int \<Rightarrow> state \<Rightarrow> int \<times> addr option \<times> state" where
  "promote_err_cond_init h fat res st =
     promote_err_mutex_init fat res (snd (pthread_mutex_destroy h fat st))"

definition promote_err_mutex_lock ::
  "host \<Rightarrow> addr \<Rightarrow> int \<Rightarrow> state \<Rightarrow> int \<times> addr option \<times> state" where
  "promote_err_mutex_lock h fat res st =
     promote_err_cond_init h fat res (snd (pthread_cond_destroy h fat st))"

text \<open>Lines 349-357: the fields a new fat mutex is given.\<close>

definition promote_fields :: "addr \<Rightarrow> fat_mutex" where
  "promote_fields head =
     (let h0 = (head \<noteq> 0) in
      \<lparr>held = h0, waiters = 0, refcount = (if h0 then 1 else 0),
       transfer_gen = 0, transfers = 0\<rparr>)"

definition skinny_mutex_promote ::
  "host \<Rightarrow> addr \<Rightarrow> addr \<Rightarrow> state \<Rightarrow> int \<times> addr option \<times> state" where
  "skinny_mutex_promote h skinny head st =
     (case malloc h st of
        (fat, st0) \<Rightarrow>
          if fat = 0 then (ENOMEM, Some fat, st0)
          else
            (case pthread_mutex_init h fat (fat_set fat (promote_fields head) st0) of
               (res1, st1) \<Rightarrow>
                 if res1 \<noteq> 0 then promote_err_mutex_init fat res1 st1
                 else
                   (case pthread_cond_init h fat st1 of
                      (res2, st2) \<Rightarrow>
                        if res2 \<noteq> 0 then promote_err_cond_init h fat res2 st2
                        else
                          (case pthread_mutex_lock h fat st2 of
                             (res3, st3) \<Rightarrow>
                               if res3 \<noteq> 0 then promote_err_mutex_lock h fat res3 st3
                               else
                                 (case CAS skinny head fat st3 of
                                    (ok, st4) \<Rightarrow>
                                      if ok then (0, Some fat, st4)
                                      else promote_err_mutex_lock h fat (- 1)
                                             (snd (pthread_mutex_unlock h fat st4)))))))"

definition fat_mutex_get ::
  "host \<Rightarrow> addr \<Rightarrow> addr \<Rightarrow> state \<Rightarrow> (int \<times> addr option \<times> state) option" where
  "fat_mutex_get h skinny head st =
     (if head \<le> 1 then Some (skinny_mutex_promote h skinny head st)
      else fat_mutex_peg h skinny head st)"

section \<open>\<^verbatim>\<open>fat_mutex_release\<close>\<close>

text \<open>Line 422: the decrement and, when it reaches zero, the compare-and-swap.\<close>

definition release_keep :: "addr \<Rightarrow> addr \<Rightarrow> state \<Rightarrow> (bool \<times> state) option" where
  "release_keep skinny fat st =
     (case fat_at st fat of
        None \<Rightarrow> None
      | Some f \<Rightarrow>
          (let st1 = fat_set fat (f\<lparr>refcount := refcount f - 1\<rparr>) st in
           if refcount f - 1 \<noteq> 0 then Some (True, st1)
           else (case CAS skinny fat 0 st1 of (ok, st2) \<Rightarrow> Some (\<not> ok, st2))))"

definition fat_mutex_release :: "host \<Rightarrow> addr \<Rightarrow> addr \<Rightarrow> state \<Rightarrow> (int \<times> state) option" where
  "fat_mutex_release h skinny fat st =
     (case release_keep skinny fat st of
        None \<Rightarrow> None
      | Some (keep, st1) \<Rightarrow>
          (case pthread_mutex_unlock h fat st1 of
             (res, st2) \<Rightarrow>
               if keep \<or> res \<noteq> 0 then Some (res, st2)
               else
                 (case pthread_mutex_destroy h fat st2 of
                    (res1, st3) \<Rightarrow>
                      if res1 \<noteq> 0 then Some (res1, st3)
                      else
                        (case pthread_cond_destroy h fat st3 of
                           (res2, st4) \<Rightarrow>
                             if res2 \<noteq> 0 then Some (res2, st4)
                             else Some (0, free fat st4)))))"

section \<open>\<^verbatim>\<open>fat_mutex_lock\<close>\<close>

text \<open>
  Lines 451-465, the loop that waits. \<open>Some r\<close> in the result: the function returned
  \<open>r\<close> from inside the loop; \<open>None\<close>: the loop was left. A failed \<^verbatim>\<open>assert\<close>
  aborts.
\<close>

partial_function (option) fat_mutex_lock_wait ::
  "host \<Rightarrow> addr \<Rightarrow> addr \<Rightarrow> state \<Rightarrow> (ret option \<times> state) option" where
  "fat_mutex_lock_wait h skinny fat st =
     (case pthread_setcancelstate h st of
        (a1, st1) \<Rightarrow>
          if a1 \<noteq> 0 then Some (Some Abort, st1)
          else
            (case pthread_cond_wait h fat fat st1 of
               (res, st2) \<Rightarrow>
                 (case pthread_setcancelstate h st2 of
                    (a2, st3) \<Rightarrow>
                      if a2 \<noteq> 0 then Some (Some Abort, st3)
                      else if res \<noteq> 0 then
                        (case fat_modify fat (\<lambda>f. f\<lparr>waiters := waiters f - 1\<rparr>) st3 of
                           None \<Rightarrow> None
                         | Some st4 \<Rightarrow>
                             (case fat_mutex_release h skinny fat st4 of
                                None \<Rightarrow> None
                              | Some (res2, st5) \<Rightarrow> Some (Some (recover res res2), st5)))
                      else
                        (case fat_at st3 fat of
                           None \<Rightarrow> None
                         | Some f \<Rightarrow>
                             if held f then fat_mutex_lock_wait h skinny fat st3
                             else Some (None, st3)))))"

text \<open>Lines 470-471.\<close>

definition fat_mutex_lock_take :: "host \<Rightarrow> addr \<Rightarrow> state \<Rightarrow> (ret \<times> state) option" where
  "fat_mutex_lock_take h fat st =
     (case fat_modify fat (\<lambda>f. f\<lparr>held := True\<rparr>) st of
        None \<Rightarrow> None
      | Some st1 \<Rightarrow>
          (case pthread_mutex_unlock h fat st1 of (res, st2) \<Rightarrow> Some (Ret res, st2)))"

definition fat_mutex_lock :: "host \<Rightarrow> addr \<Rightarrow> addr \<Rightarrow> state \<Rightarrow> (ret \<times> state) option" where
  "fat_mutex_lock h skinny fat st =
     (case fat_at st fat of
        None \<Rightarrow> None
      | Some f \<Rightarrow>
          if held f then
            (case fat_mutex_lock_wait h skinny fat
                    (fat_set fat (f\<lparr>waiters := waiters f + 1\<rparr>) st) of
               None \<Rightarrow> None
             | Some (returned, st1) \<Rightarrow>
                 (case returned of
                    Some r \<Rightarrow> Some (r, st1)
                  | None \<Rightarrow>
                      (case fat_modify fat (\<lambda>f. f\<lparr>waiters := waiters f - 1\<rparr>) st1 of
                         None \<Rightarrow> None
                       | Some st2 \<Rightarrow> fat_mutex_lock_take h fat st2)))
          else fat_mutex_lock_take h fat st)"

section \<open>\<^verbatim>\<open>skinny_mutex_lock_slow\<close> and \<^verbatim>\<open>skinny_mutex_trylock\<close>\<close>

partial_function (option) skinny_mutex_lock_slow ::
  "host \<Rightarrow> addr \<Rightarrow> state \<Rightarrow> (ret \<times> state) option" where
  "skinny_mutex_lock_slow h skinny st =
     (let head = val st skinny in
      if head \<noteq> 0 then
        (case fat_mutex_get h skinny head st of
           None \<Rightarrow> None
         | Some (res, fatp, st1) \<Rightarrow>
             if res = 0 then
               (case fatp of
                  None \<Rightarrow> None
                | Some fat \<Rightarrow>
                    (case fat_modify fat (\<lambda>f. f\<lparr>refcount := refcount f + 1\<rparr>) st1 of
                       None \<Rightarrow> None
                     | Some st2 \<Rightarrow> fat_mutex_lock h skinny fat st2))
             else if res \<ge> 0 then Some (Ret res, st1)
             else skinny_mutex_lock_slow h skinny st1)
      else
        (case CAS skinny head 1 st of
           (ok, st1) \<Rightarrow>
             if ok then Some (Ret 0, st1)
             else skinny_mutex_lock_slow h skinny st1))"

text \<open>Lines 524-531: what \<^verbatim>\<open>skinny_mutex_trylock\<close> does with the locked fat mutex.\<close>

definition trylock_fat :: "host \<Rightarrow> addr \<Rightarrow> state \<Rightarrow> (ret \<times> state) option" where
  "trylock_fat h fat st =
     (case fat_at st fat of
        None \<Rightarrow> None
      | Some f \<Rightarrow>
          (case (if \<not> held f
                 then (0, fat_set fat (f\<lparr>held := True, refcount := refcount f + 1\<rparr>) st)
                 else (EBUSY, st)) of
             (res, st1) \<Rightarrow>
               (case pthread_mutex_unlock h fat st1 of
                  (res2, st2) \<Rightarrow> Some (recover res res2, st2))))"

partial_function (option) skinny_mutex_trylock ::
  "host \<Rightarrow> addr \<Rightarrow> state \<Rightarrow> (ret \<times> state) option" where
  "skinny_mutex_trylock h skinny st =
     (let head = val st skinny in
      if head = 0 then
        (case CAS skinny head 1 st of
           (ok, st1) \<Rightarrow>
             if ok then Some (Ret 0, st1)
             else skinny_mutex_trylock h skinny st1)
      else if head = 1 then Some (Ret EBUSY, st)
      else
        (case fat_mutex_peg h skinny head st of
           None \<Rightarrow> None
         | Some (res, fatp, st1) \<Rightarrow>
             if res > 0 then Some (Ret res, st1)
             else if res < 0 then skinny_mutex_trylock h skinny st1
             else (case fatp of
                     None \<Rightarrow> None
                   | Some fat \<Rightarrow> trylock_fat h fat st1)))"

section \<open>\<^verbatim>\<open>fat_mutex_get_held\<close> and \<^verbatim>\<open>skinny_mutex_unlock_slow\<close>\<close>

partial_function (option) fat_mutex_get_held ::
  "host \<Rightarrow> addr \<Rightarrow> state \<Rightarrow> (int \<times> addr option \<times> state) option" where
  "fat_mutex_get_held h skinny st =
     (let head = val st skinny in
      if head = 0 then Some (EPERM, None, st)
      else
        (case fat_mutex_get h skinny head st of
           None \<Rightarrow> None
         | Some (res, fatp, st1) \<Rightarrow>
             if res = 0 then
               (case fatp of
                  None \<Rightarrow> None
                | Some fat \<Rightarrow>
                    (case fat_at st1 fat of
                       None \<Rightarrow> None
                     | Some f \<Rightarrow>
                         if held f then Some (0, fatp, st1)
                         else
                           (case pthread_mutex_unlock h fat st1 of
                              (res1, st2) \<Rightarrow>
                                if res1 \<noteq> 0 then Some (res1, fatp, st2)
                                else Some (EPERM, fatp, st2))))
             else if res \<ge> 0 then Some (res, fatp, st1)
             else fat_mutex_get_held h skinny st1))"

text \<open>Lines 573-579: what \<^verbatim>\<open>skinny_mutex_unlock_slow\<close> does with the held fat mutex.\<close>

definition unlock_fat :: "host \<Rightarrow> addr \<Rightarrow> addr \<Rightarrow> state \<Rightarrow> (ret \<times> state) option" where
  "unlock_fat h skinny fat st =
     (case fat_at st fat of
        None \<Rightarrow> None
      | Some f \<Rightarrow>
          (case (if waiters f \<noteq> 0
                 then pthread_cond_signal h fat (fat_set fat (f\<lparr>held := False\<rparr>) st)
                 else (0, fat_set fat (f\<lparr>held := False\<rparr>) st)) of
             (res, st1) \<Rightarrow>
               (case fat_mutex_release h skinny fat st1 of
                  None \<Rightarrow> None
                | Some (res2, st2) \<Rightarrow> Some (recover res res2, st2))))"

definition skinny_mutex_unlock_slow :: "host \<Rightarrow> addr \<Rightarrow> state \<Rightarrow> (ret \<times> state) option" where
  "skinny_mutex_unlock_slow h skinny st =
     (case fat_mutex_get_held h skinny st of
        None \<Rightarrow> None
      | Some (res, fatp, st1) \<Rightarrow>
          if res \<noteq> 0 then Some (Ret res, st1)
          else (case fatp of
                  None \<Rightarrow> None
                | Some fat \<Rightarrow> unlock_fat h skinny fat st1))"

section \<open>Waiting on a condition variable\<close>

text \<open>
  \<^verbatim>\<open>struct cond_wait_cleanup\<close> has the fields \<open>skinny\<close>, \<open>fat\<close> and \<open>lock_res\<close>.
  \<^verbatim>\<open>skinny_mutex_cond_timedwait\<close> assigns \<open>c.fat\<close> only (line 604): \<open>c.skinny\<close> is never
  assigned, so the handler passes to \<^verbatim>\<open>fat_mutex_lock\<close> whatever the field holds
  (\<open>c_skinny\<close> here). \<^verbatim>\<open>fat_mutex_lock\<close> hands it to \<^verbatim>\<open>fat_mutex_release\<close> when its own
  wait fails, and nowhere else. The handler stores the result of \<^verbatim>\<open>fat_mutex_lock\<close> in
  \<^verbatim>\<open>c->lock_res\<close>; here it returns it.
\<close>

definition cond_wait_cleanup :: "host \<Rightarrow> addr \<Rightarrow> addr \<Rightarrow> state \<Rightarrow> (ret \<times> state) option" where
  "cond_wait_cleanup h c_skinny c_fat st = fat_mutex_lock h c_skinny c_fat st"

text \<open>
  Lines 616-631: from the clearing of \<open>held\<close> on. \<^verbatim>\<open>pthread_cleanup_pop(1)\<close> runs the
  handler that \<^verbatim>\<open>pthread_cleanup_push\<close> registered. \<open>abstime\<close> is \<open>None\<close> for a null
  pointer.
\<close>

definition cond_wait_fat ::
  "host \<Rightarrow> addr \<Rightarrow> addr \<Rightarrow> nat option \<Rightarrow> state \<Rightarrow> (ret \<times> state) option" where
  "cond_wait_fat h cond fat abstime st =
     (case fat_modify fat (\<lambda>f. f\<lparr>held := False\<rparr>) st of
        None \<Rightarrow> None
      | Some st1 \<Rightarrow>
          (case (case abstime of
                   None \<Rightarrow> pthread_cond_wait h cond fat (st1\<lparr>trace := trace st1 @ [CleanupPush fat]\<rparr>)
                 | Some t \<Rightarrow>
                     pthread_cond_timedwait h cond fat t
                       (st1\<lparr>trace := trace st1 @ [CleanupPush fat]\<rparr>)) of
             (res, st2) \<Rightarrow>
               (case cond_wait_cleanup h (indeterminate h) fat
                       (st2\<lparr>trace := trace st2 @ [CleanupPop fat]\<rparr>) of
                  None \<Rightarrow> None
                | Some (lock_res, st3) \<Rightarrow> Some (recover_ret res lock_res, st3))))"

definition skinny_mutex_cond_timedwait ::
  "host \<Rightarrow> addr \<Rightarrow> addr \<Rightarrow> nat option \<Rightarrow> state \<Rightarrow> (ret \<times> state) option" where
  "skinny_mutex_cond_timedwait h cond skinny abstime st =
     (case fat_mutex_get_held h skinny st of
        None \<Rightarrow> None
      | Some (res, fatp, st1) \<Rightarrow>
          if res \<noteq> 0 then Some (Ret res, st1)
          else
            (case fatp of
               None \<Rightarrow> None
             | Some fat \<Rightarrow>
                 (case fat_at st1 fat of
                    None \<Rightarrow> None
                  | Some f \<Rightarrow>
                      if waiters f \<noteq> 0 then
                        (case pthread_cond_signal h fat st1 of
                           (res1, st2) \<Rightarrow>
                             if res1 \<noteq> 0
                             then Some (Ret res1, snd (pthread_mutex_unlock h fat st2))
                             else cond_wait_fat h cond fat abstime st2)
                      else cond_wait_fat h cond fat abstime st1)))"

definition skinny_mutex_cond_wait ::
  "host \<Rightarrow> addr \<Rightarrow> addr \<Rightarrow> state \<Rightarrow> (ret \<times> state) option" where
  "skinny_mutex_cond_wait h cond skinny st = skinny_mutex_cond_timedwait h cond skinny None st"

section \<open>The fast paths of the header\<close>

text \<open>
  Modelled from the spec: \<^verbatim>\<open>skinny_mutex.h\<close>, which defines \<^verbatim>\<open>skinny_mutex_lock\<close> and
  \<^verbatim>\<open>skinny_mutex_unlock\<close>, is not among the sources. Section 4.1 of the specification:
  acquire is a compare-and-swap of the word from 0 to 1, and the slow acquire when that
  fails; release is a compare-and-swap from 1 to 0, and the slow release when that fails.
\<close>

definition skinny_mutex_lock :: "host \<Rightarrow> addr \<Rightarrow> state \<Rightarrow> (ret \<times> state) option" where
  "skinny_mutex_lock h skinny st =
     (case CAS skinny 0 1 st of
        (ok, st1) \<Rightarrow> if ok then Some (Ret 0, st1) else skinny_mutex_lock_slow h skinny st1)"

definition skinny_mutex_unlock :: "host \<Rightarrow> addr \<Rightarrow> state \<Rightarrow> (ret \<times> state) option" where
  "skinny_mutex_unlock h skinny st =
     (case CAS skinny 1 0 st of
        (ok, st1) \<Rightarrow> if ok then Some (Ret 0, st1) else skinny_mutex_unlock_slow h skinny st1)"

section \<open>\<^verbatim>\<open>skinny_mutex_transfer\<close> and \<^verbatim>\<open>skinny_mutex_veto_transfer\<close>\<close>

text \<open>
  Lines 645-673, the first loop. \<open>Inl r\<close>: the function returned \<open>r\<close>;
  \<open>Inr fat_b\<close>: the loop was left with the fat mutex of \<open>b\<close> locked.
\<close>

partial_function (option) transfer_get_b ::
  "host \<Rightarrow> addr \<Rightarrow> addr \<Rightarrow> state \<Rightarrow> ((ret + addr) \<times> state) option" where
  "transfer_get_b h a b st =
     (let b_head = val st b in
      if b_head = 0 then
        (case CAS b b_head 1 st of
           (ok, st1) \<Rightarrow>
             if \<not> ok then transfer_get_b h a b st1
             else
               (case skinny_mutex_unlock h a st1 of
                  None \<Rightarrow> None
                | Some (r, st2) \<Rightarrow>
                    (case r of
                       Abort \<Rightarrow> Some (Inl Abort, st2)
                     | Ret res \<Rightarrow>
                         if res \<noteq> 0 then
                           (case skinny_mutex_unlock h b st2 of
                              None \<Rightarrow> None
                            | Some (r2, st3) \<Rightarrow> Some (Inl (recover_ret res r2), st3))
                         else Some (Inl (Ret 0), st2))))
      else
        (case fat_mutex_get h b b_head st of
           None \<Rightarrow> None
         | Some (res, fatp, st1) \<Rightarrow>
             if res = 0 then
               (case fatp of None \<Rightarrow> None | Some fat_b \<Rightarrow> Some (Inr fat_b, st1))
             else if res \<ge> 0 then Some (Inl (Ret res), st1)
             else transfer_get_b h a b st1))"

text \<open>Lines 724-727: after the loop that waits for \<open>b\<close> was left by \<^verbatim>\<open>break\<close>.\<close>

definition transfer_fail ::
  "host \<Rightarrow> addr \<Rightarrow> addr \<Rightarrow> addr \<Rightarrow> int \<Rightarrow> state \<Rightarrow> (ret \<times> state) option" where
  "transfer_fail h a b fat_b res st =
     (case fat_modify fat_b (\<lambda>f. f\<lparr>transfers := transfers f - 1, waiters := waiters f - 1\<rparr>) st of
        None \<Rightarrow> None
      | Some st1 \<Rightarrow>
          (case fat_mutex_release h b fat_b st1 of
             None \<Rightarrow> None
           | Some (res2, st2) \<Rightarrow>
               (case recover res res2 of
                  Abort \<Rightarrow> Some (Abort, st2)
                | Ret res3 \<Rightarrow>
                    (case skinny_mutex_lock h a st2 of
                       None \<Rightarrow> None
                     | Some (r, st3) \<Rightarrow> Some (recover_ret res3 r, st3)))))"

text \<open>
  Lines 696-727: the loop that waits for \<open>b\<close>, and what follows it. A \<^verbatim>\<open>break\<close> goes on
  with the code after the loop.
\<close>

partial_function (option) transfer_loop ::
  "host \<Rightarrow> addr \<Rightarrow> addr \<Rightarrow> addr \<Rightarrow> 64 word \<Rightarrow> state \<Rightarrow> (ret \<times> state) option" where
  "transfer_loop h a b fat_b gen st =
     (case fat_at st fat_b of
        None \<Rightarrow> None
      | Some f \<Rightarrow>
          if \<not> held f then
            (case pthread_mutex_unlock h fat_b
                    (fat_set fat_b
                       (f\<lparr>transfers := transfers f - 1, waiters := waiters f - 1, held := True\<rparr>)
                       st) of
               (res, st1) \<Rightarrow> Some (Ret res, st1))
          else if transfer_gen f \<noteq> gen then transfer_fail h a b fat_b EAGAIN st
          else
            (case pthread_setcancelstate h st of
               (a1, st1) \<Rightarrow>
                 if a1 \<noteq> 0 then Some (Abort, st1)
                 else
                   (case pthread_cond_wait h fat_b fat_b st1 of
                      (res, st2) \<Rightarrow>
                        (case pthread_setcancelstate h st2 of
                           (a2, st3) \<Rightarrow>
                             if a2 \<noteq> 0 then Some (Abort, st3)
                             else if res \<noteq> 0 then transfer_fail h a b fat_b res st3
                             else transfer_loop h a b fat_b gen st3))))"

text \<open>Lines 693-727: the wait for \<open>b\<close>, from the two increments on.\<close>

definition transfer_await ::
  "host \<Rightarrow> addr \<Rightarrow> addr \<Rightarrow> addr \<Rightarrow> 64 word \<Rightarrow> state \<Rightarrow> (ret \<times> state) option" where
  "transfer_await h a b fat_b gen st =
     (case fat_modify fat_b (\<lambda>f. f\<lparr>transfers := transfers f + 1, waiters := waiters f + 1\<rparr>) st of
        None \<Rightarrow> None
      | Some st1 \<Rightarrow> transfer_loop h a b fat_b gen st1)"

text \<open>
  Lines 678-691: \<open>a\<close> is unlocked. \<open>Inl r\<close>: the function returned \<open>r\<close>; \<open>Inr ()\<close>: it
  goes on. The results of the unlock and of the lock of the mutex of \<open>fat_b\<close> around the
  slow unlock are not looked at.
\<close>

definition transfer_unlock_a ::
  "host \<Rightarrow> addr \<Rightarrow> addr \<Rightarrow> addr \<Rightarrow> state \<Rightarrow> ((ret + unit) \<times> state) option" where
  "transfer_unlock_a h a b fat_b st =
     (case CAS a 1 0 st of
        (ok, st1) \<Rightarrow>
          if ok then Some (Inr (), st1)
          else
            (case skinny_mutex_unlock_slow h a (snd (pthread_mutex_unlock h fat_b st1)) of
               None \<Rightarrow> None
             | Some (r, st2) \<Rightarrow>
                 (case r of
                    Abort \<Rightarrow> Some (Inl Abort, st2)
                  | Ret res \<Rightarrow>
                      (case pthread_mutex_lock h fat_b st2 of
                         (l, st3) \<Rightarrow>
                           if res \<noteq> 0 then
                             (case fat_mutex_release h b fat_b st3 of
                                None \<Rightarrow> None
                              | Some (res2, st4) \<Rightarrow> Some (Inl (recover res res2), st4))
                           else Some (Inr (), st3)))))"

definition skinny_mutex_transfer :: "host \<Rightarrow> addr \<Rightarrow> addr \<Rightarrow> state \<Rightarrow> (ret \<times> state) option" where
  "skinny_mutex_transfer h a b st =
     (case transfer_get_b h a b st of
        None \<Rightarrow> None
      | Some (Inl r, st1) \<Rightarrow> Some (r, st1)
      | Some (Inr fat_b, st1) \<Rightarrow>
          (case fat_at st1 fat_b of
             None \<Rightarrow> None
           | Some f \<Rightarrow>
               (let st2 = fat_set fat_b (f\<lparr>refcount := refcount f + 1\<rparr>) st1;
                    gen = transfer_gen f
                in case transfer_unlock_a h a b fat_b st2 of
                     None \<Rightarrow> None
                   | Some (Inl r, st3) \<Rightarrow> Some (r, st3)
                   | Some (Inr u, st3) \<Rightarrow> transfer_await h a b fat_b gen st3)))"

text \<open>Lines 757-767: what \<^verbatim>\<open>skinny_mutex_veto_transfer\<close> does with the locked fat mutex.\<close>

definition veto_fat :: "host \<Rightarrow> addr \<Rightarrow> state \<Rightarrow> (ret \<times> state) option" where
  "veto_fat h fat st =
     (case fat_at st fat of
        None \<Rightarrow> None
      | Some f \<Rightarrow>
          (case (if held f then
                   (if transfers f \<noteq> 0
                    then pthread_cond_broadcast h fat
                           (fat_set fat (f\<lparr>transfer_gen := transfer_gen f + 1\<rparr>) st)
                    else (0, fat_set fat (f\<lparr>transfer_gen := transfer_gen f + 1\<rparr>) st))
                 else (EPERM, st)) of
             (res, st1) \<Rightarrow>
               (case pthread_mutex_unlock h fat st1 of
                  (res2, st2) \<Rightarrow> Some (recover res res2, st2))))"

partial_function (option) skinny_mutex_veto_transfer ::
  "host \<Rightarrow> addr \<Rightarrow> state \<Rightarrow> (ret \<times> state) option" where
  "skinny_mutex_veto_transfer h skinny st =
     (let head = val st skinny in
      if head = 1 then Some (Ret 0, st)
      else if head = 0 then Some (Ret EPERM, st)
      else
        (case fat_mutex_peg h skinny head st of
           None \<Rightarrow> None
         | Some (res, fatp, st1) \<Rightarrow>
             if res = 0 then
               (case fatp of None \<Rightarrow> None | Some fat \<Rightarrow> veto_fat h fat st1)
             else if res > 0 then Some (Ret res, st1)
             else skinny_mutex_veto_transfer h skinny st1))"

section \<open>Vocabulary of the properties\<close>

text \<open>The pegs whose \<^verbatim>\<open>next\<close> is \<open>x\<close>: when \<open>x\<close> is a fat mutex, the ends of the peg chains.\<close>

definition pegs_to :: "state \<Rightarrow> addr \<Rightarrow> addr set" where
  "pegs_to st x = {a. \<exists>pg. heap st a = Some (PegObj pg) \<and> peg_next pg = x}"

text \<open>Two values of a fat mutex that differ at most in the refcount.\<close>

definition same_fields :: "fat_mutex \<Rightarrow> fat_mutex \<Rightarrow> bool" where
  "same_fields f f' \<longleftrightarrow>
     held f' = held f \<and> waiters f' = waiters f
     \<and> transfer_gen f' = transfer_gen f \<and> transfers f' = transfers f"

text \<open>
  What a walk along a chain keeps: the words, the fields of the fat mutex but the
  refcount, and the refcount minus the number of pegs that point to the fat mutex, up to
  \<open>d\<close>, the number of decrements that the walk still owes.
\<close>

definition fat_frame :: "addr \<Rightarrow> state \<Rightarrow> state \<Rightarrow> 64 word \<Rightarrow> bool" where
  "fat_frame fat st st' d \<longleftrightarrow>
     val st' = val st \<and> finite (pegs_to st' fat) \<and>
     (case fat_at st fat of
        None \<Rightarrow> False
      | Some f \<Rightarrow>
          (case fat_at st' fat of
             None \<Rightarrow> False
           | Some f' \<Rightarrow>
               same_fields f f'
               \<and> refcount f' - of_nat (card (pegs_to st' fat))
                   = refcount f - of_nat (card (pegs_to st fat)) - d))"

text \<open>The number of chains that end in a fat mutex, and the refcount without them.\<close>

definition chains :: "state \<Rightarrow> addr \<Rightarrow> addr \<Rightarrow> nat" where
  "chains st skinny fat = card (pegs_to st fat) + (if val st skinny = fat then 1 else 0)"

definition net_refcount :: "state \<Rightarrow> addr \<Rightarrow> addr \<Rightarrow> 64 word option" where
  "net_refcount st skinny fat =
     map_option (\<lambda>f. refcount f + 1 - of_nat (chains st skinny fat)) (fat_at st fat)"

text \<open>
  Reading a trace: the decrements of peg refcounts, in order, each with its peg and its
  amount; and that a peg is freed exactly after a decrement of its refcount that gave 0,
  as the next event.
\<close>

primrec subs :: "event list \<Rightarrow> (addr \<times> 8 word) list" where
  "subs [] = []"
| "subs (e # es) = (case e of AtomicSub a x r \<Rightarrow> (a, x) # subs es | _ \<Rightarrow> subs es)"

primrec freed_pending :: "addr option \<Rightarrow> event list \<Rightarrow> bool" where
  "freed_pending pend [] = (pend = None)"
| "freed_pending pend (e # es) =
     (case pend of
        Some a \<Rightarrow> e = Free a \<and> freed_pending None es
      | None \<Rightarrow>
          (case e of
             AtomicSub a x r \<Rightarrow> freed_pending (if r = 0 then Some a else None) es
           | Free b \<Rightarrow> False
           | _ \<Rightarrow> freed_pending None es))"

definition freed_at_zero :: "event list \<Rightarrow> bool" where
  "freed_at_zero es = freed_pending None es"

text \<open>The events at which other threads run, and a stretch of trace without them.\<close>

definition is_wait :: "event \<Rightarrow> bool" where
  "is_wait e = (case e of CondWait c m \<Rightarrow> True | CondTimedWait c m t \<Rightarrow> True | _ \<Rightarrow> False)"


text \<open>
  The accounting of references. \<open>frees evs\<close> are the addresses freed in a trace, in
  order; \<open>next_of st a\<close> is where the peg at \<open>a\<close> points; \<open>arrivals st evs x\<close> is the
  number of pegs freed in \<open>evs\<close> that pointed to \<open>x\<close>: the references to \<open>x\<close> that
  went away with them.
\<close>

primrec frees :: "event list \<Rightarrow> addr list" where
  "frees [] = []"
| "frees (e # es) = (case e of Free a \<Rightarrow> a # frees es | _ \<Rightarrow> frees es)"

definition next_of :: "state \<Rightarrow> addr \<Rightarrow> addr option" where
  "next_of st a = (case heap st a of Some (PegObj pg) \<Rightarrow> Some (peg_next pg) | _ \<Rightarrow> None)"

definition arrivals :: "state \<Rightarrow> event list \<Rightarrow> addr \<Rightarrow> nat" where
  "arrivals st evs x = length (filter (\<lambda>b. next_of st b = Some x) (frees evs))"

text \<open>
  \<open>accounted fat inc deb evs st st'\<close>: the heap \<open>st'\<close> is the heap \<open>st\<close> in which every
  object has paid for the references to it that went away, \<open>deb x\<close> for the object at
  \<open>x\<close>. No address is freed twice. The pegs freed in \<open>evs\<close> are gone, and each of them
  had a refcount of exactly \<open>deb\<close>: it is freed when its refcount reaches 0. Every other
  peg keeps its \<open>next\<close> and has its refcount lowered by \<open>deb\<close>, to a value that is not 0
  when anything was taken from it. The fat mutex \<open>fat\<close> has its refcount raised by \<open>inc\<close>
  and lowered by \<open>deb fat\<close>, and every other field as before; nothing else is changed
  and nothing is allocated.
\<close>

definition accounted ::
  "addr \<Rightarrow> 64 word \<Rightarrow> (addr \<Rightarrow> nat) \<Rightarrow> event list \<Rightarrow> state \<Rightarrow> state \<Rightarrow> bool" where
  "accounted fat inc deb evs st st' \<longleftrightarrow>
     distinct (frees evs)
   \<and> (\<forall>a. heap st' a =
        (case heap st a of
           None \<Rightarrow> None
         | Some (FatObj g) \<Rightarrow>
             Some (FatObj (if a = fat then g\<lparr>refcount := refcount g + inc - of_nat (deb a)\<rparr> else g))
         | Some (PegObj pg) \<Rightarrow>
             if a \<in> set (frees evs) then None
             else Some (PegObj (pg\<lparr>peg_refcount := peg_refcount pg - of_nat (deb a)\<rparr>))))
   \<and> (\<forall>a\<in>set (frees evs). \<exists>pg. heap st a = Some (PegObj pg) \<and> peg_refcount pg = of_nat (deb a))
   \<and> (\<forall>a pg. heap st' a = Some (PegObj pg) \<longrightarrow> 0 < deb a \<longrightarrow> peg_refcount pg \<noteq> 0)"

text \<open>
  The references to \<open>x\<close> that a walk takes away. \<open>word_refs\<close>: those of the pegs it
  frees, and that of the word of the skinny mutex when the word pointed to \<open>x\<close> before
  the exchange. \<open>dropped\<close>: these and, when \<open>x\<close> is the peg of the caller, the reference
  of the caller.
\<close>

definition word_refs :: "state \<Rightarrow> addr \<Rightarrow> event list \<Rightarrow> addr \<Rightarrow> nat" where
  "word_refs st skinny evs x = arrivals st evs x + (if val st skinny = x then 1 else 0)"


text \<open>
  \<open>chain st p ps fat\<close>: following \<open>next\<close> from \<open>p\<close> goes through the pegs \<open>ps\<close>, in
  this order, and ends at the fat mutex \<open>fat\<close>.
\<close>

primrec chain :: "state \<Rightarrow> addr \<Rightarrow> addr list \<Rightarrow> addr \<Rightarrow> bool" where
  "chain st p [] fat = (p = fat \<and> fat_at st fat \<noteq> None)"
| "chain st p (q # qs) fat =
     (p = q \<and> (case next_of st q of None \<Rightarrow> False | Some n \<Rightarrow> chain st n qs fat))"

text \<open>The state when a fresh peg has been installed in the word (lines 219-244).\<close>

definition installed :: "host \<Rightarrow> addr \<Rightarrow> state \<Rightarrow> state" where
  "installed h s st =
     st\<lparr>val := (val st)(s := alloc h (trace st)),
        heap := (heap st)(alloc h (trace st) \<mapsto>
                  PegObj \<lparr>peg_refcount = 2, peg_next = val st s\<rparr>),
        trace := trace st @ [Malloc (alloc h (trace st))]\<rparr>"

text \<open>The event of the wait in \<^verbatim>\<open>skinny_mutex_cond_timedwait\<close>.\<close>

definition wait_event :: "addr \<Rightarrow> addr \<Rightarrow> nat option \<Rightarrow> event" where
  "wait_event c m abstime =
     (case abstime of None \<Rightarrow> CondWait c m | Some t \<Rightarrow> CondTimedWait c m t)"

text \<open>When the word of the skinny mutex is 0 or 1, no fat mutex is allocated.\<close>

definition idle_clean :: "state \<Rightarrow> addr \<Rightarrow> bool" where
  "idle_clean st s \<longleftrightarrow> (val st s \<le> 1 \<longrightarrow> (\<forall>a. fat_at st a = None))"

section \<open>Concrete hosts and states\<close>

text \<open>
  \<open>calm a\<close> is the host where every call succeeds, every allocation returns \<open>a\<close> and
  no other thread runs. \<open>lone_fat hl rc\<close> is the memory where the skinny mutex at
  address 5 points to a fat mutex at address 2 and nothing else is allocated.
\<close>

definition calm :: "addr \<Rightarrow> host" where
  "calm a =
     \<lparr>status = (\<lambda>_ _. 0), alloc = (\<lambda>_. a), others = (\<lambda>_ m. m), indeterminate = 0\<rparr>"

definition lone_fat :: "bool \<Rightarrow> 64 word \<Rightarrow> state" where
  "lone_fat hl rc =
     \<lparr>val = (\<lambda>_. 0)(5 := 2),
      heap = [2 \<mapsto> FatObj \<lparr>held = hl, waiters = 0, refcount = rc,
                              transfer_gen = 0, transfers = 0\<rparr>],
      trace = []\<rparr>"

text \<open>\<open>failing ev code a\<close> is the host where the call \<open>ev\<close> returns \<open>code\<close>.\<close>

definition failing :: "event \<Rightarrow> int \<Rightarrow> addr \<Rightarrow> host" where
  "failing ev code a =
     \<lparr>status = (\<lambda>_ e. if e = ev then code else 0), alloc = (\<lambda>_. a), others = (\<lambda>_ m. m),
      indeterminate = 0\<rparr>"

text \<open>
  \<open>contended\<close> is the memory where the fat mutex is held and one thread waits for it.
\<close>

definition contended :: state where
  "contended =
     \<lparr>val = (\<lambda>_. 0)(5 := 2),
      heap = [2 \<mapsto> FatObj \<lparr>held = True, waiters = 1, refcount = 2,
                              transfer_gen = 0, transfers = 0\<rparr>],
      trace = []\<rparr>"

text \<open>
  \<open>two_mutexes\<close> is the memory with the skinny mutex \<open>a\<close> at address 7, held and not
  contended, and the skinny mutex \<open>b\<close> at address 5, which points to a fat mutex that
  another thread holds. On the host \<open>vetoing\<close>, while this thread waits, the holder of
  \<open>b\<close> vetoes the transfers (\<open>transfer_gen\<close> becomes 1) and then unlocks \<open>b\<close>.
\<close>

definition two_mutexes :: state where
  "two_mutexes =
     \<lparr>val = (\<lambda>_. 0)(5 := 2, 7 := 1),
      heap = [2 \<mapsto> FatObj \<lparr>held = True, waiters = 0, refcount = 1,
                              transfer_gen = 0, transfers = 0\<rparr>],
      trace = []\<rparr>"

definition vetoing :: host where
  "vetoing =
     \<lparr>status = (\<lambda>_ _. 0), alloc = (\<lambda>_. 3),
      others = (\<lambda>_ m. (fst m, (snd m)(2 \<mapsto> FatObj \<lparr>held = False, waiters = 1, refcount = 1,
                                                     transfer_gen = 1, transfers = 1\<rparr>))),
      indeterminate = 0\<rparr>"

text \<open>
  \<open>orphaned\<close> is the memory where the word of the skinny mutex is 0 and the fat mutex
  is still allocated.
\<close>

definition orphaned :: state where
  "orphaned =
     \<lparr>val = (\<lambda>_. 0)(5 := 0),
      heap = [2 \<mapsto> FatObj \<lparr>held = False, waiters = 0, refcount = 0,
                              transfer_gen = 0, transfers = 0\<rparr>],
      trace = []\<rparr>"




text \<open>
  \<open>pegged\<close> is the memory in which another thread has installed its peg, at address
  4, on the fat mutex of the skinny mutex at address 5 and has not yet released it; the
  fat mutex is held, and one thread waits for a transfer to it. \<open>stacked\<close> is the memory
  at the exchange of a caller that has installed its own peg, at address 3, on top of
  that, and \<open>unstacked\<close> the memory after the second half of \<^verbatim>\<open>fat_mutex_peg\<close> has run on
  \<open>stacked\<close>.
\<close>

definition pegged :: state where
  "pegged =
     \<lparr>val = (\<lambda>_. 0)(5 := 4),
      heap = [2 \<mapsto> FatObj \<lparr>held = True, waiters = 1, refcount = 2,
                              transfer_gen = 0, transfers = 1\<rparr>,
              4 \<mapsto> PegObj \<lparr>peg_refcount = 2, peg_next = 2\<rparr>],
      trace = []\<rparr>"

definition stacked :: state where
  "stacked =
     \<lparr>val = (\<lambda>_. 0)(5 := 3),
      heap = [2 \<mapsto> FatObj \<lparr>held = True, waiters = 1, refcount = 2,
                              transfer_gen = 0, transfers = 1\<rparr>,
              3 \<mapsto> PegObj \<lparr>peg_refcount = 2, peg_next = 4\<rparr>,
              4 \<mapsto> PegObj \<lparr>peg_refcount = 2, peg_next = 2\<rparr>],
      trace = []\<rparr>"

definition unstacked :: state where
  "unstacked =
     \<lparr>val = (\<lambda>_. 0)(5 := 2),
      heap = [2 \<mapsto> FatObj \<lparr>held = True, waiters = 1, refcount = 3,
                              transfer_gen = 0, transfers = 1\<rparr>,
              4 \<mapsto> PegObj \<lparr>peg_refcount = 1, peg_next = 2\<rparr>],
      trace = [AtomicSub 3 2 0, Free 3, AtomicSub 4 1 1]\<rparr>"



text \<open>\<open>vetoed\<close> is the memory after \<^verbatim>\<open>skinny_mutex_veto_transfer\<close> has run on \<open>pegged\<close>.\<close>

definition vetoed :: state where
  "vetoed =
     \<lparr>val = (\<lambda>_. 0)(5 := 2),
      heap = [2 \<mapsto> FatObj \<lparr>held = True, waiters = 1, refcount = 3,
                              transfer_gen = 1, transfers = 1\<rparr>,
              4 \<mapsto> PegObj \<lparr>peg_refcount = 1, peg_next = 2\<rparr>],
      trace = [Malloc 3, MutexLock 2, AtomicSub 3 2 0, Free 3, AtomicSub 4 1 1,
               CondBroadcast 2, MutexUnlock 2]\<rparr>"
section \<open>Auxiliary facts\<close>

lemmas host_defs = host_call_def pthread_mutex_init_def pthread_mutex_destroy_def
  pthread_mutex_lock_def pthread_mutex_unlock_def pthread_cond_init_def pthread_cond_destroy_def
  pthread_cond_signal_def pthread_cond_broadcast_def pthread_setcancelstate_def

lemma release_keep_eq:
  "fat_at st fat = Some f \<Longrightarrow>
   release_keep skinny fat st =
     Some (refcount f - 1 \<noteq> 0 \<or> val st skinny \<noteq> fat,
           (fat_set fat (f\<lparr>refcount := refcount f - 1\<rparr>) st)
             \<lparr>val := (if refcount f - 1 = 0 \<and> val st skinny = fat
                       then (val st)(skinny := 0) else val st)\<rparr>)"
  by (auto simp add: release_keep_def CAS_def fat_set_def Let_def)

lemma pegs_to_finite: "finite (dom (heap st)) \<Longrightarrow> finite (pegs_to st x)"
  by (rule finite_subset [of _ "dom (heap st)"]) (auto simp add: pegs_to_def)

lemma pegs_to_sub:
  "heap st p = Some (PegObj pg) \<Longrightarrow> peg_next pg' = peg_next pg \<Longrightarrow>
   pegs_to (st\<lparr>heap := (heap st)(p \<mapsto> PegObj pg'), trace := t\<rparr>) x = pegs_to st x"
  by (auto simp add: pegs_to_def)

lemma pegs_to_free:
  "heap st p = Some (PegObj pg) \<Longrightarrow>
   pegs_to (free p st) x = (if peg_next pg = x then pegs_to st x - {p} else pegs_to st x)"
  by (auto simp add: pegs_to_def free_def)

lemma pegs_to_fat_set:
  "fat_at st fat = Some f \<Longrightarrow> pegs_to (fat_set fat g st) x = pegs_to st x"
  by (auto simp add: pegs_to_def fat_set_def fat_at_def split: option.splits obj.splits)

lemma card_less_one_word:
  assumes "finite A" and "a \<in> A"
  shows "(of_nat (card (A - {a})) :: 64 word) = of_nat (card A) - 1"
proof -
  have pos: "1 \<le> card A"
    using assms by (metis One_nat_def Suc_leI card_gt_0_iff empty_iff)
  have "card (A - {a}) = card A - 1"
    using assms by simp
  then show ?thesis
    using pos by (simp only: of_nat_diff of_nat_1)
qed

text \<open>What one decrement of a peg does.\<close>

lemma atomic_sub_and_test_Some:
  "atomic_sub_and_test p x st = Some (r, st1) \<Longrightarrow>
   \<exists>pg. heap st p = Some (PegObj pg) \<and> r = peg_refcount pg - x
     \<and> st1 = st\<lparr>heap := (heap st)(p \<mapsto> PegObj (pg\<lparr>peg_refcount := r\<rparr>)),
                 trace := trace st @ [AtomicSub p x r]\<rparr>"
  by (auto simp add: atomic_sub_and_test_def Let_def split: option.splits obj.splits)

lemma same_fields_refl [simp]: "same_fields f f"
  by (simp add: same_fields_def)

lemma same_fields_refcount [simp]: "same_fields f (f\<lparr>refcount := rc\<rparr>)"
  by (simp add: same_fields_def)

lemma same_fields_trans: "same_fields f g \<Longrightarrow> same_fields g k \<Longrightarrow> same_fields f k"
  by (simp add: same_fields_def)

lemma fat_at_fat_set: "fat_at (fat_set a g st) b = (if b = a then Some g else fat_at st b)"
  by (simp add: fat_at_def fat_set_def)

lemma val_fat_set: "val (fat_set a g st) = val st"
  by (simp add: fat_set_def)

lemma fat_frame_refl: "fat_at st fat = Some f \<Longrightarrow> finite (pegs_to st fat) \<Longrightarrow> fat_frame fat st st 0"
  by (simp add: fat_frame_def)

lemma fat_frame_step:
  assumes "fat_frame fat st1 st2 d" and "fat_at st fat = fat_at st1 fat" and "val st1 = val st"
    and "(of_nat (card (pegs_to st1 fat)) :: 64 word) = of_nat (card (pegs_to st fat)) - e"
  shows "fat_frame fat st st2 (d - e)"
proof -
  from assms(1) obtain f1 f2 where
    a: "fat_at st1 fat = Some f1" "fat_at st2 fat = Some f2" "same_fields f1 f2"
    "refcount f2 - of_nat (card (pegs_to st2 fat)) = refcount f1 - of_nat (card (pegs_to st1 fat)) - d"
    "val st2 = val st1" "finite (pegs_to st2 fat)"
    by (auto simp add: fat_frame_def split: option.splits)
  have "refcount f2 - of_nat (card (pegs_to st2 fat))
      = refcount f1 - of_nat (card (pegs_to st fat)) - (d - e)"
    unfolding a(4) assms(4) by simp
  with a assms(2,3) show ?thesis
    by (simp add: fat_frame_def)
qed

lemma peg_walk_frame:
  "peg_walk peg fat p st = Some y \<Longrightarrow>
   (\<forall>f. peg \<noteq> fat \<longrightarrow> fat_at st fat = Some f \<longrightarrow> finite (pegs_to st fat) \<longrightarrow>
      fat_frame fat st (snd y) (if p = fat then 1 else 0))"
proof (induct rule: peg_walk.raw_induct [rotated 1, consumes 1])
  case (1 walk peg fat p st y)
  show ?case
  proof (intro allI impI)
    fix f
    assume npf: "peg \<noteq> fat" and f: "fat_at st fat = Some f" and fin: "finite (pegs_to st fat)"
    show "fat_frame fat st (snd y) (if p = fat then 1 else 0)"
    proof (cases "p = peg")
      case True
      with 1(2) have "snd y = st" by auto
      with True f fin npf show ?thesis
        by (simp add: fat_frame_refl)
    next
      case np: False
      show ?thesis
      proof (cases "p = fat")
        case True
        with 1(2) np f have "snd y = fat_set fat (f\<lparr>refcount := refcount f - 1\<rparr>) st"
          by (auto simp add: fat_modify_def)
        with True np f fin show ?thesis
          by (simp add: fat_frame_def pegs_to_fat_set [OF f] fat_at_fat_set val_fat_set)
      next
        case nf: False
        from 1(2) np nf obtain r st1 where
          sub: "atomic_sub_and_test p 1 st = Some (r, st1)"
          by (cases "atomic_sub_and_test p 1 st") auto
        from atomic_sub_and_test_Some [OF sub] obtain pg where
          pg: "heap st p = Some (PegObj pg)" and r: "r = peg_refcount pg - 1"
          and st1: "st1 = st\<lparr>heap := (heap st)(p \<mapsto> PegObj (pg\<lparr>peg_refcount := r\<rparr>)),
                 trace := trace st @ [AtomicSub p 1 r]\<rparr>"
          by blast
        have p1: "pegs_to st1 fat = pegs_to st fat"
          unfolding st1 by (rule pegs_to_sub [OF pg]) simp
        have f1: "fat_at st1 fat = Some f"
          using f nf by (simp add: st1 fat_at_def)
        have v1: "val st1 = val st" by (simp add: st1)
        show ?thesis
        proof (cases "r = 0")
          case False
          with 1(2) np nf sub have "snd y = st1" by auto
          with p1 f1 v1 f fin nf show ?thesis
            by (simp add: fat_frame_def)
        next
          case True
          have h1: "heap st1 p = Some (PegObj (pg\<lparr>peg_refcount := r\<rparr>))"
            by (simp add: st1)
          from 1(2) np nf sub True h1
          have rec: "walk peg fat (peg_next pg) (free p st1) = Some y"
            by simp
          have f2: "fat_at (free p st1) fat = Some f"
            using f1 nf by (simp add: fat_at_def free_def)
          have p2: "pegs_to (free p st1) fat =
              (if peg_next pg = fat then pegs_to st fat - {p} else pegs_to st fat)"
            using pegs_to_free [OF h1, of fat] p1 by simp
          have fin2: "finite (pegs_to (free p st1) fat)"
            using fin p2 by simp
          from 1(1) [OF rec] f2 fin2 npf
          have fr: "fat_frame fat (free p st1) (snd y) (if peg_next pg = fat then 1 else 0)"
            by blast
          have mem: "peg_next pg = fat \<Longrightarrow> p \<in> pegs_to st fat"
            using pg by (auto simp add: pegs_to_def)
          have v2: "val (free p st1) = val st" by (simp add: free_def v1)
          have c: "(of_nat (card (pegs_to (free p st1) fat)) :: 64 word)
              = of_nat (card (pegs_to st fat)) - (if peg_next pg = fat then 1 else 0)"
            using card_less_one_word [OF fin mem] p2 by simp
          have "fat_frame fat st (snd y)
              ((if peg_next pg = fat then 1 else 0) - (if peg_next pg = fat then 1 else 0))"
            by (rule fat_frame_step [OF fr _ v2 c]) (simp add: f f2)
          with nf show ?thesis by simp
        qed
      qed
    qed
  qed
qed

lemma peg_retire_frame:
  "peg_retire fat peg decr st = Some st' \<Longrightarrow>
   (\<forall>f. fat_at st fat = Some f \<longrightarrow> finite (pegs_to st fat) \<longrightarrow> fat_frame fat st st' 0)"
proof (induct rule: peg_retire.raw_induct [rotated 1, consumes 1])
  case (1 retire fat peg decr st st')
  show ?case
  proof (intro allI impI)
    fix f
    assume f: "fat_at st fat = Some f" and fin: "finite (pegs_to st fat)"
    from 1(2) obtain r st1 where
      sub: "atomic_sub_and_test peg (ucast decr) st = Some (r, st1)"
      by (cases "atomic_sub_and_test peg (ucast decr) st") auto
    from atomic_sub_and_test_Some [OF sub] obtain pg where
      pg: "heap st peg = Some (PegObj pg)"
      and st1: "st1 = st\<lparr>heap := (heap st)(peg \<mapsto> PegObj (pg\<lparr>peg_refcount := r\<rparr>)),
             trace := trace st @ [AtomicSub peg (ucast decr) r]\<rparr>"
      by blast
    have nf: "peg \<noteq> fat"
      using pg f by (auto simp add: fat_at_def)
    have p1: "pegs_to st1 fat = pegs_to st fat"
      unfolding st1 by (rule pegs_to_sub [OF pg]) simp
    have f1: "fat_at st1 fat = Some f"
      using f nf by (simp add: st1 fat_at_def)
    have v1: "val st1 = val st" by (simp add: st1)
    show "fat_frame fat st st' 0"
    proof (cases "r = 0")
      case False
      with 1(2) sub have "st' = st1" by auto
      with p1 f1 v1 f fin show ?thesis
        by (simp add: fat_frame_def)
    next
      case True
      have h1: "heap st1 peg = Some (PegObj (pg\<lparr>peg_refcount := r\<rparr>))"
        by (simp add: st1)
      have f2: "fat_at (free peg st1) fat = Some f"
        using f1 nf by (simp add: fat_at_def free_def)
      have p2: "pegs_to (free peg st1) fat =
          (if peg_next pg = fat then pegs_to st fat - {peg} else pegs_to st fat)"
        using pegs_to_free [OF h1, of fat] p1 by simp
      have fin2: "finite (pegs_to (free peg st1) fat)"
        using fin p2 by simp
      have mem: "peg_next pg = fat \<Longrightarrow> peg \<in> pegs_to st fat"
        using pg by (auto simp add: pegs_to_def)
      have v2: "val (free peg st1) = val st" by (simp add: free_def v1)
      have c: "(of_nat (card (pegs_to (free peg st1) fat)) :: 64 word)
          = of_nat (card (pegs_to st fat)) - (if peg_next pg = fat then 1 else 0)"
        using card_less_one_word [OF fin mem] p2 by simp
      show ?thesis
      proof (cases "peg_next pg = fat")
        case nxt: True
        from 1(2) sub True h1 nxt f2
        have "st' = fat_set fat (f\<lparr>refcount := refcount f - 1\<rparr>) (free peg st1)"
          by (auto simp add: fat_modify_def Let_def)
        with f f2 v2 c nxt fin2 show ?thesis
          by (simp add: fat_frame_def pegs_to_fat_set [OF f2] fat_at_fat_set val_fat_set)
      next
        case nxt: False
        from 1(2) sub True h1 nxt
        have rec: "retire fat (peg_next pg) 1 (free peg st1) = Some st'"
          by (simp add: Let_def)
        from 1(1) [OF rec] f2 fin2
        have fr: "fat_frame fat (free peg st1) st' 0"
          by blast
        have "fat_frame fat st st' (0 - (if peg_next pg = fat then 1 else 0))"
          by (rule fat_frame_step [OF fr _ v2 c]) (simp add: f f2)
        with nxt show ?thesis by simp
      qed
    qed
  qed
qed

lemma peg_release_frame:
  assumes rel: "peg_release skinny peg fat st = Some st'"
    and f: "fat_at st fat = Some f"
    and fin: "finite (pegs_to st fat)"
    and npf: "peg \<noteq> fat"
  shows "val st' = (val st)(skinny := fat) \<and> finite (pegs_to st' fat)
     \<and> (\<exists>f'. fat_at st' fat = Some f' \<and> same_fields f f')
     \<and> net_refcount st' skinny fat = net_refcount st skinny fat"
proof -
  define st1 where "st1 = st\<lparr>val := (val st)(skinny := fat)\<rparr>"
  define st2 where "st2 = fat_set fat (f\<lparr>refcount := refcount f + 1\<rparr>) st1"
  have f1: "fat_at st1 fat = Some f"
    using f by (simp add: st1_def fat_at_def)
  have f2: "fat_at st2 fat = Some (f\<lparr>refcount := refcount f + 1\<rparr>)"
    by (simp add: st2_def fat_at_fat_set)
  have p2: "pegs_to st2 fat = pegs_to st fat"
    unfolding st2_def pegs_to_fat_set [OF f1] by (simp add: st1_def pegs_to_def)
  from rel f1 obtain decr st3 where
    w: "peg_walk peg fat (val st skinny) st2 = Some (decr, st3)"
    and r: "peg_retire fat peg decr st3 = Some st'"
    by (auto simp add: peg_release_def atomic_xchg_def fat_modify_def st1_def st2_def
        split: option.splits)
  from peg_walk_frame [OF w] npf f2 fin p2
  have fr1: "fat_frame fat st2 st3 (if val st skinny = fat then 1 else 0)"
    by simp
  then obtain f3 where f3: "fat_at st3 fat = Some f3" and fin3: "finite (pegs_to st3 fat)"
    by (auto simp add: fat_frame_def split: option.splits)
  from peg_retire_frame [OF r] f3 fin3
  have fr2: "fat_frame fat st3 st' 0"
    by blast
  from fr1 fr2 f2 f3 obtain f' where
    f': "fat_at st' fat = Some f'" "same_fields f f'"
    and eq: "refcount f' - of_nat (card (pegs_to st' fat))
       = refcount f + 1 - of_nat (card (pegs_to st fat)) - (if val st skinny = fat then 1 else 0)"
    and v: "val st' = val st2" and fin': "finite (pegs_to st' fat)"
    by (auto simp add: fat_frame_def p2 same_fields_def split: option.splits)
  have v': "val st' = (val st)(skinny := fat)"
    using v by (simp add: st2_def st1_def val_fat_set)
  have "net_refcount st' skinny fat = net_refcount st skinny fat"
    using f f' eq v' by (simp add: net_refcount_def chains_def)
  with v' fin' f' show ?thesis
    by (metis)
qed




lemma freed_at_zero_simps [simp]:
  "freed_at_zero []"
  "freed_at_zero (AtomicSub a x 0 # Free a # es) = freed_at_zero es"
  "r \<noteq> 0 \<Longrightarrow> freed_at_zero (AtomicSub a x r # es) = freed_at_zero es"
  by (simp_all add: freed_at_zero_def)

lemma is_wait_simps [simp]:
  "\<not> is_wait (AtomicSub a x r)" "\<not> is_wait (Free a)" "\<not> is_wait (Malloc a)"
  "\<not> is_wait (MutexLock a)" "\<not> is_wait (MutexUnlock a)" "is_wait (CondWait c m)"
  "is_wait (CondTimedWait c m t)"
  by (simp_all add: is_wait_def)


lemma peg_retire_trace:
  "peg_retire fat peg decr st = Some st' \<Longrightarrow>
   \<exists>r evs. trace st' = trace st @ AtomicSub peg (ucast decr) r # evs
      \<and> freed_at_zero (AtomicSub peg (ucast decr) r # evs)
      \<and> (\<forall>e\<in>set evs. \<not> is_wait e) \<and> (\<forall>ax\<in>set (subs evs). snd ax = 1)"
proof (induct rule: peg_retire.raw_induct [rotated 1, consumes 1])
  case (1 retire fat peg decr st st')
  from 1(2) obtain r st1 where
    sub: "atomic_sub_and_test peg (ucast decr) st = Some (r, st1)"
    by (cases "atomic_sub_and_test peg (ucast decr) st") auto
  from atomic_sub_and_test_Some [OF sub] obtain pg where
    pg: "heap st peg = Some (PegObj pg)"
    and st1: "st1 = st\<lparr>heap := (heap st)(peg \<mapsto> PegObj (pg\<lparr>peg_refcount := r\<rparr>)),
           trace := trace st @ [AtomicSub peg (ucast decr) r]\<rparr>"
    by blast
  show ?case
  proof (cases "r = 0")
    case nz: False
    with 1(2) sub have "st' = st1" by auto
    with nz show ?thesis
      by (simp add: st1)
  next
    case True
    have h1: "heap st1 peg = Some (PegObj (pg\<lparr>peg_refcount := r\<rparr>))"
      by (simp add: st1)
    show ?thesis
    proof (cases "peg_next pg = fat")
      case nxt: True
      from 1(2) sub True h1 nxt
      have "trace st' = trace (free peg st1)"
        by (auto simp add: fat_modify_def fat_set_def Let_def split: option.splits)
      then have "trace st' = trace st @ AtomicSub peg (ucast decr) r # [Free peg]"
        by (simp add: st1 free_def)
      with True show ?thesis
        by simp
    next
      case nxt: False
      from 1(2) sub True h1 nxt
      have rec: "retire fat (peg_next pg) 1 (free peg st1) = Some st'"
        by (simp add: Let_def)
      from 1(1) [OF rec] obtain r' evs where
        evs: "trace st' = trace (free peg st1) @ AtomicSub (peg_next pg) (ucast (1 :: 32 word)) r' # evs"
          "freed_at_zero (AtomicSub (peg_next pg) (ucast (1 :: 32 word)) r' # evs)"
          "\<forall>e\<in>set evs. \<not> is_wait e" "\<forall>ax\<in>set (subs evs). snd ax = 1"
        by blast
      have "trace st' = trace st @ AtomicSub peg (ucast decr) r
          # (Free peg # AtomicSub (peg_next pg) 1 r' # evs)"
        using evs(1) by (simp add: st1 free_def)
      moreover have "freed_at_zero (AtomicSub peg (ucast decr) r
          # (Free peg # AtomicSub (peg_next pg) 1 r' # evs))"
        using evs(2) True by simp
      moreover have "\<forall>e\<in>set (Free peg # AtomicSub (peg_next pg) 1 r' # evs). \<not> is_wait e"
        using evs(3) by simp
      moreover have "\<forall>ax\<in>set (subs (Free peg # AtomicSub (peg_next pg) 1 r' # evs)). snd ax = 1"
        using evs(4) by simp
      ultimately show ?thesis by blast
    qed
  qed
qed

lemma peg_install_hit:
  "val st skinny = p \<Longrightarrow>
   peg_install skinny peg p st = Some (True, p, st\<lparr>val := (val st)(skinny := peg)\<rparr>)"
  by (subst peg_install.simps) (simp add: CAS_def)

lemma peg_install_eq:
  "peg_install skinny peg p st =
     (if val st skinny = p then Some (True, p, st\<lparr>val := (val st)(skinny := peg)\<rparr>)
      else if val st skinny \<le> 1 then Some (False, val st skinny, free peg st)
      else (case heap st peg of
              Some (PegObj pg) \<Rightarrow>
                Some (True, val st skinny,
                      st\<lparr>heap := (heap st)(peg \<mapsto> PegObj (pg\<lparr>peg_next := val st skinny\<rparr>)),
                         val := (val st)(skinny := peg)\<rparr>)
            | _ \<Rightarrow> None))"
  by (subst peg_install.simps)
     (simp add: CAS_def Let_def peg_install_hit split: option.splits obj.splits)

lemma peg_find_fat_Some:
  "peg_find_fat st p = Some fat \<Longrightarrow> \<exists>f. fat_at st fat = Some f"
proof (induct rule: peg_find_fat.raw_induct [rotated 1, consumes 1])
  case (1 find st p fat)
  show ?case
  proof (cases "heap st p")
    case None
    with 1(2) show ?thesis by simp
  next
    case (Some ob)
    show ?thesis
    proof (cases ob)
      case (PegObj pg)
      with Some 1(2) have "find st (peg_next pg) = Some fat" by simp
      then show ?thesis by (rule 1(1))
    next
      case (FatObj f)
      with Some 1(2) show ?thesis by (simp add: fat_at_def)
    qed
  qed
qed

lemma peg_find_fat_fat: "fat_at st p = Some f \<Longrightarrow> peg_find_fat st p = Some p"
  by (subst peg_find_fat.simps) (auto simp add: fat_at_def split: option.splits obj.splits)

lemma fat_mutex_peg_eq:
  "fat_mutex_peg h s p st =
     (if alloc h (trace st) = 0
      then Some (ENOMEM, None, st\<lparr>trace := trace st @ [Malloc (alloc h (trace st))]\<rparr>)
      else if val st s \<noteq> p \<and> val st s \<le> 1
      then Some (- 1, None,
             st\<lparr>heap := (heap st)(alloc h (trace st) := None),
                trace := trace st @ [Malloc (alloc h (trace st)), Free (alloc h (trace st))]\<rparr>)
      else (case peg_find_fat (installed h s st) (val st s) of
              None \<Rightarrow> None
            | Some fat \<Rightarrow>
                map_option (\<lambda>st3. (status h (trace (installed h s st)) (MutexLock fat), Some fat, st3))
                  (peg_release s (alloc h (trace st)) fat
                     ((installed h s st)\<lparr>trace := trace (installed h s st) @ [MutexLock fat]\<rparr>))))"
proof -
  have inst: "val st s \<noteq> p \<Longrightarrow>
      (st\<lparr>trace := trace st @ [Malloc (alloc h (trace st))],
          heap := (heap st)(alloc h (trace st) \<mapsto> PegObj \<lparr>peg_refcount = 2, peg_next = val st s\<rparr>),
          val := (val st)(s := alloc h (trace st))\<rparr>) = installed h s st"
    by (simp add: installed_def)
  have inst': "val st s = p \<Longrightarrow>
      (st\<lparr>trace := trace st @ [Malloc (alloc h (trace st))],
          heap := (heap st)(alloc h (trace st) \<mapsto> PegObj \<lparr>peg_refcount = 2, peg_next = p\<rparr>),
          val := (val st)(s := alloc h (trace st))\<rparr>) = installed h s st"
    by (simp add: installed_def)
  show ?thesis
    by (simp add: fat_mutex_peg_def malloc_def Let_def peg_install_eq free_def inst inst'
        host_call_def pthread_mutex_lock_def split: option.splits)
qed

lemma fat_at_installed:
  assumes "fat_at (installed h s st) fat = Some f"
  shows "fat \<noteq> alloc h (trace st) \<and> fat_at st fat = Some f"
  using assms by (auto simp add: installed_def fat_at_def split: if_splits)

lemma pegs_to_installed:
  assumes "alloc h (trace st) \<notin> dom (heap st)"
  shows "pegs_to (installed h s st) fat
     = (if val st s = fat then insert (alloc h (trace st)) (pegs_to st fat) else pegs_to st fat)"
  using assms by (auto simp add: installed_def pegs_to_def)

lemma net_refcount_installed:
  assumes fresh: "alloc h (trace st) \<notin> dom (heap st)"
    and fin: "finite (dom (heap st))"
    and f: "fat_at (installed h s st) fat = Some f"
  shows "net_refcount ((installed h s st)\<lparr>trace := t\<rparr>) s fat = net_refcount st s fat"
proof -
  from fat_at_installed [OF f] have ne: "fat \<noteq> alloc h (trace st)" and f0: "fat_at st fat = Some f"
    by simp_all
  have notin: "alloc h (trace st) \<notin> pegs_to st fat"
    using fresh by (auto simp add: pegs_to_def)
  have finp: "finite (pegs_to st fat)"
    by (rule pegs_to_finite [OF fin])
  have pt: "pegs_to ((installed h s st)\<lparr>trace := t\<rparr>) fat = pegs_to (installed h s st) fat"
    by (simp add: pegs_to_def)
  have v: "val (installed h s st) s = alloc h (trace st)"
    by (simp add: installed_def)
  have fa: "fat_at ((installed h s st)\<lparr>trace := t\<rparr>) fat = Some f"
    using f by (simp add: fat_at_def)
  show ?thesis
    using ne notin finp
    by (simp add: net_refcount_def chains_def pt v fa f0 pegs_to_installed [OF fresh])
qed

lemma fat_mutex_peg_frame:
  assumes peg: "fat_mutex_peg h s p st = Some (res, Some fat, st')"
    and fresh: "alloc h (trace st) \<notin> dom (heap st)"
    and fin: "finite (dom (heap st))"
  shows "\<exists>f f'. fat_at st fat = Some f \<and> fat_at st' fat = Some f' \<and> same_fields f f'
     \<and> net_refcount st' s fat = net_refcount st s fat
     \<and> val st' = (val st)(s := fat)
     \<and> res = status h (trace st @ [Malloc (alloc h (trace st))]) (MutexLock fat)"
proof -
  let ?st1 = "installed h s st"
  let ?st2 = "?st1\<lparr>trace := trace ?st1 @ [MutexLock fat]\<rparr>"
  from peg have ff: "peg_find_fat ?st1 (val st s) = Some fat"
    and res: "res = status h (trace ?st1) (MutexLock fat)"
    and rel: "peg_release s (alloc h (trace st)) fat ?st2 = Some st'"
    by (auto simp add: fat_mutex_peg_eq split: if_splits option.splits)
  from peg_find_fat_Some [OF ff] obtain f where f1: "fat_at ?st1 fat = Some f" ..
  from fat_at_installed [OF f1] have ne: "fat \<noteq> alloc h (trace st)" and f0: "fat_at st fat = Some f"
    by simp_all
  have f2: "fat_at ?st2 fat = Some f"
    using f1 by (simp add: fat_at_def)
  have fin2: "finite (pegs_to ?st2 fat)"
    by (rule pegs_to_finite) (simp add: installed_def fin)
  from peg_release_frame [OF rel f2 fin2] ne obtain f' where
    f': "fat_at st' fat = Some f'" "same_fields f f'"
    and v': "val st' = (val ?st2)(s := fat)"
    and net: "net_refcount st' s fat = net_refcount ?st2 s fat"
    by auto
  have "net_refcount ?st2 s fat = net_refcount st s fat"
    by (rule net_refcount_installed [OF fresh fin f1])
  with net have "net_refcount st' s fat = net_refcount st s fat" by simp
  moreover have "val st' = (val st)(s := fat)"
    using v' by (simp add: installed_def)
  moreover have "res = status h (trace st @ [Malloc (alloc h (trace st))]) (MutexLock fat)"
    using res by (simp add: installed_def)
  ultimately show ?thesis
    using f0 f' by blast
qed





text \<open>The peg protocol when the skinny mutex points to the fat mutex and no other thread runs.\<close>

lemma fat_mutex_peg_direct:
  assumes v: "val st s = fat" and f: "fat_at st fat = Some f"
    and fresh: "alloc h (trace st) \<notin> dom (heap st)" and nz: "alloc h (trace st) \<noteq> 0"
  shows "fat_mutex_peg h s fat st =
     Some (status h (trace st @ [Malloc (alloc h (trace st))]) (MutexLock fat), Some fat,
           st\<lparr>trace := trace st @ [Malloc (alloc h (trace st)), MutexLock fat,
                                    AtomicSub (alloc h (trace st)) 2 0, Free (alloc h (trace st))]\<rparr>)"
proof -
  let ?a = "alloc h (trace st)"
  have ne: "fat \<noteq> ?a"
    using f fresh by (auto simp add: fat_at_def split: option.splits)
  have hf: "heap st fat = Some (FatObj f)"
    using f by (auto simp add: fat_at_def split: option.splits obj.splits)
  have f1: "fat_at (installed h s st) fat = Some f"
    using f ne by (simp add: installed_def fat_at_def)
  have ff: "peg_find_fat (installed h s st) fat = Some fat"
    by (rule peg_find_fat_fat [OF f1])
  have hp: "(heap st)(?a := None, fat \<mapsto> FatObj f) = heap st"
    using hf fresh by (auto simp add: fun_upd_def)
  have vs: "(val st)(s := fat) = val st"
    using v by auto
  have rel: "peg_release s ?a fat
       ((installed h s st)\<lparr>trace := trace st @ [Malloc ?a, MutexLock fat]\<rparr>)
     = Some (st\<lparr>trace := trace st @ [Malloc ?a, MutexLock fat, AtomicSub ?a 2 0, Free ?a]\<rparr>)"
    apply (simp add: peg_release_def atomic_xchg_def installed_def fat_modify_def fat_at_def
        fat_set_def ne hf)
    apply (subst peg_walk.simps)
    apply simp
    apply (subst peg_retire.simps)
    apply (simp add: atomic_sub_and_test_def Let_def free_def fat_modify_def fat_at_def fat_set_def
        ne ne [symmetric] hf v hp vs)
    done
  have tr: "trace (installed h s st) = trace st @ [Malloc ?a]"
    by (simp add: installed_def)
  show ?thesis
    using nz v by (simp add: fat_mutex_peg_eq ff rel tr)
qed

lemma lone_fat_simps [simp]:
  "val (lone_fat hl rc) 5 = 2"
  "fat_at (lone_fat hl rc) 2
     = Some \<lparr>held = hl, waiters = 0, refcount = rc, transfer_gen = 0, transfers = 0\<rparr>"
  "dom (heap (lone_fat hl rc)) = {2}"
  "trace (lone_fat hl rc) = []"
  by (simp_all add: lone_fat_def fat_at_def)

lemma host_simps [simp]:
  "status (calm a) t e = 0" "alloc (calm a) t = a" "others (calm a) t m = m"
  "status (failing ev c a) t e = (if e = ev then c else 0)" "alloc (failing ev c a) t = a"
  "others (failing ev c a) t m = m"
  by (simp_all add: calm_def failing_def)

lemma fat_at_trace [simp]: "fat_at (st\<lparr>trace := t\<rparr>) a = fat_at st a"
  by (simp add: fat_at_def)

lemma peg_lone_fat:
  "a \<noteq> 0 \<Longrightarrow> a \<noteq> 2 \<Longrightarrow> alloc h [] = a \<Longrightarrow>
   fat_mutex_peg h 5 2 (lone_fat hl rc) =
     Some (status h [Malloc a] (MutexLock 2), Some 2,
           (lone_fat hl rc)\<lparr>trace := [Malloc a, MutexLock 2, AtomicSub a 2 0, Free a]\<rparr>)"
  using fat_mutex_peg_direct [of "lone_fat hl rc" 5 2
      "\<lparr>held = hl, waiters = 0, refcount = rc, transfer_gen = 0, transfers = 0\<rparr>" h]
  by simp

lemma trylock_fat_eq:
  "fat_at st fat = Some f \<Longrightarrow>
   trylock_fat h fat st =
     Some (recover (if held f then EBUSY else 0) (status h (trace st) (MutexUnlock fat)),
           (if held f then st else fat_set fat (f\<lparr>held := True, refcount := refcount f + 1\<rparr>) st)
             \<lparr>trace := trace st @ [MutexUnlock fat]\<rparr>)"
  by (simp add: trylock_fat_def host_defs fat_set_def)


lemma veto_fat_eq:
  "fat_at st fat = Some f \<Longrightarrow>
   veto_fat h fat st =
     Some (recover (if held f
                    then (if transfers f \<noteq> 0 then status h (trace st) (CondBroadcast fat) else 0)
                    else EPERM)
             (status h (trace st @ (if held f \<and> transfers f \<noteq> 0 then [CondBroadcast fat] else []))
                (MutexUnlock fat)),
           (if held f then fat_set fat (f\<lparr>transfer_gen := transfer_gen f + 1\<rparr>) st else st)
             \<lparr>trace := trace st @ (if held f \<and> transfers f \<noteq> 0 then [CondBroadcast fat] else [])
                          @ [MutexUnlock fat]\<rparr>)"
  by (simp add: veto_fat_def host_defs fat_set_def)

lemma net_refcount_trace [simp]: "net_refcount (st\<lparr>trace := t\<rparr>) s fat = net_refcount st s fat"
  by (simp add: net_refcount_def chains_def pegs_to_def)

lemma trylock_lone_fat_busy:
  "skinny_mutex_trylock (calm 3) 5 (lone_fat True 1)
     = Some (Ret EBUSY, (lone_fat True 1)\<lparr>trace := [Malloc 3, MutexLock 2, AtomicSub 3 2 0,
                                                     Free 3, MutexUnlock 2]\<rparr>)"
  by (subst skinny_mutex_trylock.simps)
     (simp add: peg_lone_fat [of 3] Let_def trylock_fat_eq recover_def)

lemma fat_mutex_release_Some:
  "fat_at st fat = Some f \<Longrightarrow> \<exists>res st'. fat_mutex_release h s fat st = Some (res, st')"
  by (simp add: fat_mutex_release_def release_keep_eq host_defs)

lemma unlock_fat_eq:
  "fat_at st fat = Some f \<Longrightarrow>
   unlock_fat h s fat st =
     (case fat_mutex_release h s fat
             ((fat_set fat (f\<lparr>held := False\<rparr>) st)
                \<lparr>trace := trace st @ (if waiters f \<noteq> 0 then [CondSignal fat] else [])\<rparr>) of
        None \<Rightarrow> None
      | Some (res2, st2) \<Rightarrow>
          Some (recover (if waiters f \<noteq> 0 then status h (trace st) (CondSignal fat) else 0) res2,
                st2))"
  by (simp add: unlock_fat_def host_defs fat_set_def)

lemma promote_fat:
  "skinny_mutex_promote h s head st = (0, Some fat, st1) \<Longrightarrow>
   fat_at st1 fat = Some (promote_fields head)"
  by (auto simp add: skinny_mutex_promote_def malloc_def Let_def host_defs
      promote_err_mutex_lock_def promote_err_cond_init_def promote_err_mutex_init_def
      fat_set_def free_def CAS_def fat_at_def ENOMEM_def split: if_splits)

lemma trace_interfere [simp]: "trace (interfere h st) = trace st"
  by (simp add: interfere_def split: prod.splits)

lemma interfere_calm [simp]: "others h = (\<lambda>_ m. m) \<Longrightarrow> interfere h st = st"
  by (simp add: interfere_def)

lemma fat_mutex_get_held_held:
  "fat_mutex_get_held h s st = Some y \<Longrightarrow>
   (\<forall>fat f. fst y = 0 \<longrightarrow> fst (snd y) = Some fat \<longrightarrow> fat_at (snd (snd y)) fat = Some f
      \<longrightarrow> held f)"
proof (induct rule: fat_mutex_get_held.raw_induct [rotated 1, consumes 1])
  case (1 get_held h s st y)
  show ?case
  proof (cases "val st s = 0")
    case True
    with 1(2) show ?thesis by (auto simp add: EPERM_def)
  next
    case nz: False
    with 1(2) obtain res fatp st1 where
      g: "fat_mutex_get h s (val st s) st = Some (res, fatp, st1)"
      by (cases "fat_mutex_get h s (val st s) st") (auto simp add: Let_def)
    show ?thesis
    proof (cases "res = 0")
      case True
      with 1(2) nz g show ?thesis
        by (auto simp add: Let_def host_defs EPERM_def split: option.splits if_splits)
    next
      case False
      show ?thesis
      proof (cases "0 \<le> res")
        case True
        with 1(2) nz g False show ?thesis by (auto simp add: Let_def)
      next
        case neg: False
        with 1(2) nz g False have "get_held h s st1 = Some y" by (simp add: Let_def)
        from 1(1) [OF this] show ?thesis .
      qed
    qed
  qed
qed

lemma cond_wait_fat_eq:
  "fat_at st fat = Some f \<Longrightarrow>
   cond_wait_fat h c fat abstime st =
     (case fat_mutex_lock h (indeterminate h) fat
             ((interfere h
                 ((fat_set fat (f\<lparr>held := False\<rparr>) st)
                    \<lparr>trace := trace st @ [CleanupPush fat, wait_event c fat abstime]\<rparr>))
                \<lparr>trace := trace st @ [CleanupPush fat, wait_event c fat abstime, CleanupPop fat]\<rparr>) of
        None \<Rightarrow> None
      | Some (lock_res, st3) \<Rightarrow>
          Some (recover_ret
                  (status h (trace st @ [CleanupPush fat]) (wait_event c fat abstime))
                  lock_res, st3))"
  unfolding wait_event_def
  by (cases abstime)
     (auto simp add: cond_wait_fat_def cond_wait_cleanup_def fat_modify_def pthread_cond_wait_def
        pthread_cond_timedwait_def host_call_def fat_set_def interfere_def split: prod.splits
        cong: option.case_cong)

lemma fat_mutex_peg_contended:
  "a \<noteq> 0 \<Longrightarrow> a \<noteq> 2 \<Longrightarrow> alloc h [] = a \<Longrightarrow>
   fat_mutex_peg h 5 2 contended =
     Some (status h [Malloc a] (MutexLock 2), Some 2,
           contended\<lparr>trace := [Malloc a, MutexLock 2, AtomicSub a 2 0, Free a]\<rparr>)"
  using fat_mutex_peg_direct [of contended 5 2
      "\<lparr>held = True, waiters = 1, refcount = 2, transfer_gen = 0, transfers = 0\<rparr>" h]
  by (simp add: contended_def fat_at_def)

lemma get_held_lone_fat:
  "fat_mutex_get_held (calm 3) 5 (lone_fat True rc)
     = Some (0, Some 2, (lone_fat True rc)\<lparr>trace := [Malloc 3, MutexLock 2, AtomicSub 3 2 0, Free 3]\<rparr>)"
  by (subst fat_mutex_get_held.simps)
     (simp add: Let_def fat_mutex_get_def peg_lone_fat [of 3])

lemma two_mutexes_simps [simp]:
  "val two_mutexes 5 = 2" "val two_mutexes 7 = 1"
  "fat_at two_mutexes 2
     = Some \<lparr>held = True, waiters = 0, refcount = 1, transfer_gen = 0, transfers = 0\<rparr>"
  "dom (heap two_mutexes) = {2}" "trace two_mutexes = []"
  by (simp_all add: two_mutexes_def fat_at_def)

lemma vetoing_simps [simp]:
  "status vetoing t e = 0" "alloc vetoing t = 3"
  by (simp_all add: vetoing_def)


lemma peg_walk_own: "peg_walk peg fat peg st = Some (2, st)"
  by (subst peg_walk.simps) simp

lemma peg_walk_fat:
  "peg \<noteq> fat \<Longrightarrow> fat_at st fat = Some f \<Longrightarrow>
   peg_walk peg fat fat st = Some (1, fat_set fat (f\<lparr>refcount := refcount f - 1\<rparr>) st)"
  by (subst peg_walk.simps) (simp add: fat_modify_def)

lemma peg_walk_stranger:
  "p \<noteq> peg \<Longrightarrow> p \<noteq> fat \<Longrightarrow> heap st p = Some (PegObj q) \<Longrightarrow> peg_refcount q = 2 \<Longrightarrow>
   peg_walk peg fat p st =
     Some (1, st\<lparr>heap := (heap st)(p \<mapsto> PegObj (q\<lparr>peg_refcount := 1\<rparr>)),
                 trace := trace st @ [AtomicSub p 1 1]\<rparr>)"
  by (subst peg_walk.simps) (simp add: atomic_sub_and_test_def Let_def)


section \<open>The references that a release takes away\<close>

lemma frees_append: "frees (es @ fs) = frees es @ frees fs"
  by (induct es) (auto split: event.splits)


lemma arrivals_Nil [simp]: "arrivals st [] x = 0"
  by (simp add: arrivals_def)

lemma arrivals_cong:
  "(\<And>b. b \<in> set (frees evs) \<Longrightarrow> next_of st b = next_of st2 b) \<Longrightarrow>
   arrivals st evs x = arrivals st2 evs x"
  unfolding arrivals_def by (rule arg_cong [where f = length], rule filter_cong) auto

lemma accounted_trans:
  assumes a1: "accounted fat 0 d1 e1 s s1" and a2: "accounted fat 0 d2 e2 s1 s2"
    and z: "\<forall>a\<in>set (frees e1). d2 a = 0"
  shows "accounted fat 0 (\<lambda>a. d1 a + d2 a) (e1 @ e2) s s2"
proof -
  from a1 have h1: "\<And>a. heap s1 a =
        (case heap s a of
           None \<Rightarrow> None
         | Some (FatObj g) \<Rightarrow>
             Some (FatObj (if a = fat then g\<lparr>refcount := refcount g + 0 - of_nat (d1 a)\<rparr> else g))
         | Some (PegObj pg) \<Rightarrow>
             if a \<in> set (frees e1) then None
             else Some (PegObj (pg\<lparr>peg_refcount := peg_refcount pg - of_nat (d1 a)\<rparr>)))"
    and f1: "\<And>a. a \<in> set (frees e1) \<Longrightarrow> \<exists>pg. heap s a = Some (PegObj pg) \<and> peg_refcount pg = of_nat (d1 a)"
    and n1: "\<And>a pg. heap s1 a = Some (PegObj pg) \<Longrightarrow> 0 < d1 a \<Longrightarrow> peg_refcount pg \<noteq> 0"
    and di1: "distinct (frees e1)"
    by (auto simp add: accounted_def)
  from a2 have h2: "\<And>a. heap s2 a =
        (case heap s1 a of
           None \<Rightarrow> None
         | Some (FatObj g) \<Rightarrow>
             Some (FatObj (if a = fat then g\<lparr>refcount := refcount g + 0 - of_nat (d2 a)\<rparr> else g))
         | Some (PegObj pg) \<Rightarrow>
             if a \<in> set (frees e2) then None
             else Some (PegObj (pg\<lparr>peg_refcount := peg_refcount pg - of_nat (d2 a)\<rparr>)))"
    and f2: "\<And>a. a \<in> set (frees e2) \<Longrightarrow> \<exists>pg. heap s1 a = Some (PegObj pg) \<and> peg_refcount pg = of_nat (d2 a)"
    and n2: "\<And>a pg. heap s2 a = Some (PegObj pg) \<Longrightarrow> 0 < d2 a \<Longrightarrow> peg_refcount pg \<noteq> 0"
    and di2: "distinct (frees e2)"
    by (auto simp add: accounted_def)
  have disj: "set (frees e1) \<inter> set (frees e2) = {}"
  proof (rule ccontr)
    assume "set (frees e1) \<inter> set (frees e2) \<noteq> {}"
    then obtain a where a: "a \<in> set (frees e1)" "a \<in> set (frees e2)" by auto
    from f1 [OF a(1)] obtain pg where "heap s a = Some (PegObj pg)" by blast
    with h1 [of a] a(1) have "heap s1 a = None" by simp
    with f2 [OF a(2)] show False by simp
  qed
  have dist: "distinct (frees (e1 @ e2))"
    using di1 di2 disj by (simp add: frees_append)
  have heap: "heap s2 a =
        (case heap s a of
           None \<Rightarrow> None
         | Some (FatObj g) \<Rightarrow>
             Some (FatObj (if a = fat then g\<lparr>refcount := refcount g + 0 - of_nat (d1 a + d2 a)\<rparr> else g))
         | Some (PegObj pg) \<Rightarrow>
             if a \<in> set (frees (e1 @ e2)) then None
             else Some (PegObj (pg\<lparr>peg_refcount := peg_refcount pg - of_nat (d1 a + d2 a)\<rparr>)))" for a
  proof (cases "heap s a")
    case None
    with h1 [of a] h2 [of a] show ?thesis by simp
  next
    case (Some ob)
    show ?thesis
    proof (cases ob)
      case (FatObj g)
      with Some h1 [of a] h2 [of a] show ?thesis
        by (simp add: diff_diff_eq)
    next
      case (PegObj pg)
      show ?thesis
      proof (cases "a \<in> set (frees e1)")
        case True
        with Some PegObj h1 [of a] h2 [of a] show ?thesis
          by (simp add: frees_append)
      next
        case False
        with Some PegObj h1 [of a] h2 [of a] show ?thesis
          by (simp add: frees_append diff_diff_eq)
      qed
    qed
  qed
  have fr: "\<exists>pg. heap s a = Some (PegObj pg) \<and> peg_refcount pg = of_nat (d1 a + d2 a)"
    if "a \<in> set (frees (e1 @ e2))" for a
  proof (cases "a \<in> set (frees e1)")
    case True
    with f1 [OF True] z show ?thesis by simp
  next
    case False
    with that have m: "a \<in> set (frees e2)" by (simp add: frees_append)
    from f2 [OF m] obtain pg1 where pg1: "heap s1 a = Some (PegObj pg1)" "peg_refcount pg1 = of_nat (d2 a)"
      by blast
    with h1 [of a] False obtain pg where "heap s a = Some (PegObj pg)"
      "pg1 = pg\<lparr>peg_refcount := peg_refcount pg - of_nat (d1 a)\<rparr>"
      by (auto split: option.splits obj.splits if_splits)
    with pg1 show ?thesis
      by (simp add: algebra_simps)
  qed
  have nz: "peg_refcount pg \<noteq> 0" if hp: "heap s2 a = Some (PegObj pg)" and pos: "0 < d1 a + d2 a" for a pg
  proof (cases "0 < d2 a")
    case True
    from n2 [OF hp True] show ?thesis .
  next
    case False
    then have d2: "d2 a = 0" by simp
    with pos have d1: "0 < d1 a" by simp
    from hp h2 [of a] d2 have "heap s1 a = Some (PegObj pg)"
      by (auto split: option.splits obj.splits if_splits)
    from n1 [OF this d1] show ?thesis .
  qed
  show ?thesis
    unfolding accounted_def using dist heap fr nz by blast
qed


lemma accounted_deb_cong:
  "accounted fat inc d evs st st' \<Longrightarrow> (\<And>a. d a = d' a) \<Longrightarrow> accounted fat inc d' evs st st'"
proof -
  assume a: "accounted fat inc d evs st st'" and e: "\<And>a. d a = d' a"
  from e have "d = d'" by (rule ext)
  with a show ?thesis by simp
qed

lemma accounted_allocated:
  "accounted fat inc d evs st st' \<Longrightarrow> b \<in> set (frees evs) \<Longrightarrow> \<exists>pg. heap st b = Some (PegObj pg)"
  by (auto simp add: accounted_def)

lemma accounted_sub:
  "heap st p = Some (PegObj pg) \<Longrightarrow> peg_refcount pg - of_nat d \<noteq> 0 \<Longrightarrow>
   heap st1 = (heap st)(p \<mapsto> PegObj (pg\<lparr>peg_refcount := peg_refcount pg - of_nat d\<rparr>)) \<Longrightarrow>
   accounted fat 0 (\<lambda>a. if a = p then d else 0) [AtomicSub p x r] st st1"
  by (auto simp add: accounted_def split: option.splits obj.splits)

lemma accounted_free:
  "heap st p = Some (PegObj pg) \<Longrightarrow> peg_refcount pg = of_nat d \<Longrightarrow>
   heap st2 = (heap st)(p := None) \<Longrightarrow>
   accounted fat 0 (\<lambda>a. if a = p then d else 0) [AtomicSub p x 0, Free p] st st2"
  by (auto simp add: accounted_def split: option.splits obj.splits)

lemma accounted_fat:
  "fat_at st fat = Some g \<Longrightarrow> heap st1 = (heap st)(fat \<mapsto> FatObj (g\<lparr>refcount := refcount g - 1\<rparr>)) \<Longrightarrow>
   accounted fat 0 (\<lambda>a. if a = fat then 1 else 0) [] st st1"
  by (auto simp add: accounted_def fat_at_def split: option.splits obj.splits)


lemma arrivals_free:
  assumes pg: "heap st p = Some (PegObj pg)" and np: "\<forall>b\<in>set (frees evs2). b \<noteq> p"
    and h2: "heap st2 = (heap st)(p := None)"
  shows "arrivals st (AtomicSub p x 0 # Free p # evs2) a
       = (if a = peg_next pg then 1 else 0) + arrivals st2 evs2 a"
proof -
  have "arrivals st evs2 a = arrivals st2 evs2 a"
    by (rule arrivals_cong) (use np h2 in \<open>auto simp add: next_of_def\<close>)
  then show ?thesis
    using pg by (auto simp add: arrivals_def next_of_def)
qed

lemma peg_retire_accounted:
  "peg_retire fat peg decr st = Some st' \<Longrightarrow>
   \<exists>evs. trace st' = trace st @ evs \<and> val st' = val st
     \<and> accounted fat 0 (\<lambda>a. arrivals st evs a + (if a = peg then unat decr else 0)) evs st st'
     \<and> (\<forall>a. heap st a = None \<longrightarrow> arrivals st evs a = 0)
     \<and> heap st peg \<noteq> None \<and> arrivals st evs peg = 0"
proof (induct rule: peg_retire.raw_induct [rotated 1, consumes 1])
  case (1 retire fat peg decr st st')
  from 1(2) obtain r st1 where
    sub: "atomic_sub_and_test peg (ucast decr) st = Some (r, st1)"
    by (cases "atomic_sub_and_test peg (ucast decr) st") auto
  from atomic_sub_and_test_Some [OF sub] obtain pg where
    pg: "heap st peg = Some (PegObj pg)" and r: "r = peg_refcount pg - ucast decr"
    and st1: "st1 = st\<lparr>heap := (heap st)(peg \<mapsto> PegObj (pg\<lparr>peg_refcount := r\<rparr>)),
           trace := trace st @ [AtomicSub peg (ucast decr) r]\<rparr>"
    by blast
  show ?case
  proof (cases "r = 0")
    case False
    with 1(2) sub have e: "st' = st1" by auto
    have "accounted fat 0 (\<lambda>a. if a = peg then unat decr else 0) [AtomicSub peg (ucast decr) r] st st1"
      by (rule accounted_sub [OF pg]) (use False r in \<open>simp_all add: st1 of_nat_unat\<close>)
    then have "accounted fat 0 (\<lambda>a. arrivals st [AtomicSub peg (ucast decr) r] a
        + (if a = peg then unat decr else 0)) [AtomicSub peg (ucast decr) r] st st1"
      by (rule accounted_deb_cong) (simp add: arrivals_def)
    then show ?thesis
      unfolding e using pg
      by (intro exI [of _ "[AtomicSub peg (ucast decr) r]"]) (simp add: st1 arrivals_def)
  next
    case True
    define st2 where "st2 = free peg st1"
    have h2: "heap st2 = (heap st)(peg := None)"
      by (simp add: st2_def free_def st1)
    have t2: "trace st2 = trace st @ [AtomicSub peg (ucast decr) 0, Free peg]"
      by (simp add: st2_def free_def st1 True)
    have v2: "val st2 = val st"
      by (simp add: st2_def free_def st1)
    have rc: "peg_refcount pg = of_nat (unat decr)"
      using r True by (simp add: of_nat_unat)
    have step: "accounted fat 0 (\<lambda>a. if a = peg then unat decr else 0)
        [AtomicSub peg (ucast decr) 0, Free peg] st st2"
      by (rule accounted_free [OF pg rc h2])
    have h1: "heap st1 peg = Some (PegObj (pg\<lparr>peg_refcount := r\<rparr>))"
      by (simp add: st1)
    have tail: "\<exists>evs2. trace st' = trace st2 @ evs2 \<and> val st' = val st2
        \<and> accounted fat 0 (\<lambda>a. arrivals st2 evs2 a + (if a = peg_next pg then 1 else 0)) evs2 st2 st'
        \<and> (\<forall>a. heap st2 a = None \<longrightarrow> arrivals st2 evs2 a = 0)
        \<and> heap st2 (peg_next pg) \<noteq> None"
    proof (cases "peg_next pg = fat")
      case nxt: True
      from 1(2) sub True h1 nxt obtain g where
        g: "fat_at st2 fat = Some g"
        and e: "st' = fat_set fat (g\<lparr>refcount := refcount g - 1\<rparr>) st2"
        by (auto simp add: fat_modify_def Let_def st2_def split: option.splits)
      have "accounted fat 0 (\<lambda>a. if a = fat then 1 else 0) [] st2 st'"
        by (rule accounted_fat [OF g]) (simp add: e fat_set_def)
      then have "accounted fat 0 (\<lambda>a. arrivals st2 [] a + (if a = peg_next pg then 1 else 0)) [] st2 st'"
        by (rule accounted_deb_cong) (simp add: nxt)
      moreover have "heap st2 fat \<noteq> None"
        using g by (auto simp add: fat_at_def split: option.splits)
      ultimately show ?thesis
        by (intro exI [of _ "[]"]) (simp add: e fat_set_def nxt)
    next
      case nxt: False
      from 1(2) sub True h1 nxt
      have rec: "retire fat (peg_next pg) 1 st2 = Some st'"
        by (simp add: Let_def st2_def)
      have u: "unat (1 :: 32 word) = 1" by simp
      from 1(1) [OF rec, unfolded u] obtain evs2 where
        "trace st' = trace st2 @ evs2" "val st' = val st2"
        "accounted fat 0 (\<lambda>a. arrivals st2 evs2 a + (if a = peg_next pg then 1 else 0))
           evs2 st2 st'"
        "\<forall>a. heap st2 a = None \<longrightarrow> arrivals st2 evs2 a = 0"
        "heap st2 (peg_next pg) \<noteq> None"
        by blast
      then show ?thesis
        by (intro exI [of _ evs2]) simp
    qed
    then obtain evs2 where
      t': "trace st' = trace st2 @ evs2" and v': "val st' = val st2"
      and acc2: "accounted fat 0 (\<lambda>a. arrivals st2 evs2 a + (if a = peg_next pg then 1 else 0)) evs2 st2 st'"
      and un2: "\<forall>a. heap st2 a = None \<longrightarrow> arrivals st2 evs2 a = 0"
      and qa: "heap st2 (peg_next pg) \<noteq> None"
      by blast
    let ?evs = "AtomicSub peg (ucast decr) 0 # Free peg # evs2"
    have pn: "heap st2 peg = None" by (simp add: h2)
    have np: "\<forall>b\<in>set (frees evs2). b \<noteq> peg"
      using accounted_allocated [OF acc2] pn by fastforce
    have arr: "\<And>a. arrivals st ?evs a = (if a = peg_next pg then 1 else 0) + arrivals st2 evs2 a"
      by (rule arrivals_free [OF pg np h2])
    have qp: "peg_next pg \<noteq> peg"
      using qa pn by auto
    have "accounted fat 0
        (\<lambda>a. (if a = peg then unat decr else 0)
            + (arrivals st2 evs2 a + (if a = peg_next pg then 1 else 0)))
        ([AtomicSub peg (ucast decr) 0, Free peg] @ evs2) st st'"
      by (rule accounted_trans [OF step acc2]) (use un2 pn qp in simp)
    moreover have "(\<lambda>a. (if a = peg then unat decr else 0)
            + (arrivals st2 evs2 a + (if a = peg_next pg then 1 else 0)))
        = (\<lambda>a. arrivals st ?evs a + (if a = peg then unat decr else 0))"
      by (rule ext) (simp add: arr)
    ultimately have acc: "accounted fat 0
        (\<lambda>a. arrivals st ?evs a + (if a = peg then unat decr else 0)) ?evs st st'"
      by simp
    have un: "\<forall>a. heap st a = None \<longrightarrow> arrivals st ?evs a = 0"
    proof (intro allI impI)
      fix a assume n: "heap st a = None"
      then have "heap st2 a = None" by (simp add: h2)
      with un2 have "arrivals st2 evs2 a = 0" by simp
      moreover from n qa have "a \<noteq> peg_next pg" by (auto simp add: h2 split: if_splits)
      ultimately show "arrivals st ?evs a = 0" by (simp add: arr)
    qed
    have "arrivals st ?evs peg = 0"
      using un2 pn qp by (simp add: arr)
    with t' v' acc un pg show ?thesis
      by (intro exI [of _ ?evs]) (simp add: t2 v2 True)
  qed
qed



lemma accounted_inc:
  assumes f: "fat_at st fat = Some f"
    and h2: "heap st2 = (heap st)(fat \<mapsto> FatObj (f\<lparr>refcount := refcount f + 1\<rparr>))"
    and a: "accounted fat 0 d evs st2 st'"
  shows "accounted fat 1 d evs st st'"
proof -
  have hf: "heap st fat = Some (FatObj f)"
    using f by (auto simp add: fat_at_def split: option.splits obj.splits)
  from a hf show ?thesis
    unfolding accounted_def h2
    by (auto split: option.splits obj.splits if_splits)
qed




section \<open>Chains of pegs\<close>

lemma chain_fat: "chain st p ps fat \<Longrightarrow> fat_at st fat \<noteq> None"
  by (induct ps arbitrary: p) (auto split: option.splits)

lemma chain_hd: "chain st p (q # qs) fat \<Longrightarrow> p = q"
  by simp

lemma chain_unique: "chain st p ps fat \<Longrightarrow> chain st p ps' fat \<Longrightarrow> ps = ps'"
proof (induct ps arbitrary: p ps')
  case Nil
  then show ?case
    by (cases ps') (auto simp add: next_of_def fat_at_def split: option.splits obj.splits)
next
  case (Cons q qs)
  show ?case
  proof (cases ps')
    case Nil
    with Cons.prems show ?thesis
      by (auto simp add: next_of_def fat_at_def split: option.splits obj.splits)
  next
    case (Cons q' qs')
    with Cons.prems Cons.hyps show ?thesis
      by (auto split: option.splits)
  qed
qed

lemma chain_suffix: "chain st p (xs @ q # ys) fat \<Longrightarrow> chain st q (q # ys) fat"
proof (induct xs arbitrary: p)
  case Nil
  then show ?case by simp
next
  case (Cons x xs)
  from Cons.prems obtain n where "chain st n (xs @ q # ys) fat"
    by (auto split: option.splits)
  then show ?case by (rule Cons.hyps)
qed

lemma chain_distinct: "chain st p ps fat \<Longrightarrow> distinct ps"
proof (induct ps arbitrary: p)
  case Nil
  show ?case by simp
next
  case (Cons q qs)
  from Cons.prems obtain n where n: "next_of st q = Some n" "chain st n qs fat" and pq: "p = q"
    by (auto split: option.splits)
  have "q \<notin> set qs"
  proof
    assume "q \<in> set qs"
    then obtain xs ys where s: "qs = xs @ q # ys" by (auto dest: split_list)
    with n(2) have "chain st q (q # ys) fat" by (auto dest: chain_suffix)
    moreover from Cons.prems pq have "chain st q (q # qs) fat" by simp
    ultimately have "q # ys = q # qs" by (rule chain_unique)
    with s show False by simp
  qed
  with Cons.hyps [OF n(2)] show ?case by simp
qed

lemma chain_cong:
  "chain st p ps fat \<Longrightarrow> (\<forall>q\<in>set ps. next_of st' q = next_of st q) \<Longrightarrow>
   fat_at st' fat \<noteq> None \<Longrightarrow> chain st' p ps fat"
  by (induct ps arbitrary: p) (auto split: option.splits)

lemma chain_not_fat: "chain st p ps fat \<Longrightarrow> fat \<notin> set ps"
proof (induct ps arbitrary: p)
  case Nil
  show ?case by simp
next
  case (Cons q qs)
  from Cons.prems obtain n where n: "next_of st q = Some n" "chain st n qs fat"
    by (auto split: option.splits)
  from chain_fat [OF n(2)] n(1) have "q \<noteq> fat"
    by (auto simp add: next_of_def fat_at_def split: option.splits obj.splits)
  with Cons.hyps [OF n(2)] show ?case by simp
qed

lemma peg_find_fat_chain: "chain st p ps fat \<Longrightarrow> peg_find_fat st p = Some fat"
proof (induct ps arbitrary: p)
  case Nil
  then show ?case
    by (subst peg_find_fat.simps) (auto simp add: fat_at_def split: option.splits obj.splits)
next
  case (Cons q qs)
  from Cons.prems obtain n where n: "next_of st q = Some n" "chain st n qs fat" and pq: "p = q"
    by (auto split: option.splits)
  from Cons.hyps [OF n(2)] n(1) pq show ?case
    by (subst peg_find_fat.simps) (auto simp add: next_of_def split: option.splits obj.splits)
qed

lemma chain_find: "peg_find_fat st p = Some fat \<Longrightarrow> \<exists>ps. chain st p ps fat"
proof (induct rule: peg_find_fat.raw_induct [rotated 1, consumes 1])
  case (1 find st p fat)
  show ?case
  proof (cases "heap st p")
    case None
    with 1(2) show ?thesis by simp
  next
    case (Some ob)
    show ?thesis
    proof (cases ob)
      case (FatObj f)
      with Some 1(2) have "chain st p [] fat" by (simp add: fat_at_def)
      then show ?thesis ..
    next
      case (PegObj pg)
      with Some 1(2) have "find st (peg_next pg) = Some fat" by simp
      from 1(1) [OF this] obtain ps where "chain st (peg_next pg) ps fat" ..
      with Some PegObj have "chain st p (p # ps) fat" by (simp add: next_of_def)
      then show ?thesis ..
    qed
  qed
qed

lemma peg_retire_total:
  "chain st p (p # qs) fat \<Longrightarrow> \<exists>st'. peg_retire fat p d st = Some st'"
proof (induct qs arbitrary: p d st)
  case Nil
  then obtain pg where pg: "heap st p = Some (PegObj pg)" "peg_next pg = fat"
    and f: "fat_at st fat \<noteq> None"
    by (auto simp add: next_of_def split: option.splits obj.splits)
  from pg f have pf: "p \<noteq> fat" by (auto simp add: fat_at_def)
  with pg f show ?case
    by (subst peg_retire.simps)
       (auto simp add: atomic_sub_and_test_def Let_def free_def fat_modify_def fat_at_def
          split: option.splits obj.splits)
next
  case (Cons q qs)
  from Cons.prems obtain pg where pg: "heap st p = Some (PegObj pg)" "peg_next pg = q"
    and c: "chain st q (q # qs) fat"
    by (auto simp add: next_of_def split: option.splits obj.splits)
  from chain_distinct [OF Cons.prems] have pn: "p \<notin> set (q # qs)" by simp
  from chain_not_fat [OF c] have qf: "q \<noteq> fat" by simp
  from chain_not_fat [OF Cons.prems] have pf: "p \<noteq> fat" by simp
  define st2 where "st2 = free p (st\<lparr>heap := (heap st)(p \<mapsto> PegObj (pg\<lparr>peg_refcount := 0\<rparr>)),
       trace := trace st @ [AtomicSub p (ucast d) 0]\<rparr>)"
  have "chain st2 q (q # qs) fat"
  proof (rule chain_cong [OF c])
    show "\<forall>x\<in>set (q # qs). next_of st2 x = next_of st x"
      using pn by (auto simp add: st2_def free_def next_of_def)
    show "fat_at st2 fat \<noteq> None"
      using chain_fat [OF c] pf by (simp add: st2_def free_def fat_at_def)
  qed
  from Cons.hyps [OF this] obtain st' where "peg_retire fat q 1 st2 = Some st'" ..
  with pg qf show ?case
    by (subst peg_retire.simps)
       (auto simp add: atomic_sub_and_test_def Let_def st2_def)
qed


lemma peg_retire_own:
  "heap st a = Some (PegObj \<lparr>peg_refcount = 2, peg_next = n\<rparr>) \<Longrightarrow>
   peg_retire fat a 2 st =
     (if n = fat
      then fat_modify fat (\<lambda>f. f\<lparr>refcount := refcount f - 1\<rparr>)
             (st\<lparr>heap := (heap st)(a := None), trace := trace st @ [AtomicSub a 2 0, Free a]\<rparr>)
      else peg_retire fat n 1
             (st\<lparr>heap := (heap st)(a := None), trace := trace st @ [AtomicSub a 2 0, Free a]\<rparr>))"
  by (subst peg_retire.simps) (simp add: atomic_sub_and_test_def Let_def free_def)

lemma fat_mutex_peg_chain:
  assumes gt: "1 < val st s" and c: "chain st (val st s) ps fat" and f: "fat_at st fat = Some f"
    and fresh: "alloc h (trace st) \<notin> dom (heap st)" and nz: "alloc h (trace st) \<noteq> 0"
  shows "\<exists>rest st'.
       fat_mutex_peg h s (val st s) st =
         Some (status h (trace st @ [Malloc (alloc h (trace st))]) (MutexLock fat), Some fat, st')
     \<and> trace st' = trace st @ [Malloc (alloc h (trace st)), MutexLock fat,
                                 AtomicSub (alloc h (trace st)) 2 0, Free (alloc h (trace st))] @ rest
     \<and> val st' = (val st)(s := fat)
     \<and> accounted fat 1 (word_refs st s rest) rest st st'
     \<and> freed_at_zero rest \<and> (\<forall>e\<in>set rest. \<not> is_wait e) \<and> (\<forall>ax\<in>set (subs rest). snd ax = 1)"
proof -
  define a where "a = alloc h (trace st)"
  have na: "heap st a = None"
    using fresh by (auto simp add: a_def)
  have hf: "heap st fat = Some (FatObj f)"
    using f by (auto simp add: fat_at_def split: option.splits obj.splits)
  have af: "a \<noteq> fat"
    using na hf by auto
  define inst where "inst = installed h s st"
  have hi: "heap inst = (heap st)(a \<mapsto> PegObj \<lparr>peg_refcount = 2, peg_next = val st s\<rparr>)"
    and vi: "val inst = (val st)(s := a)" and ti: "trace inst = trace st @ [Malloc a]"
    by (simp_all add: inst_def installed_def a_def)
  have aps: "a \<notin> set ps"
  proof
    assume "a \<in> set ps"
    then obtain xs ys where "ps = xs @ a # ys" by (auto dest: split_list)
    with c have "chain st a (a # ys) fat" by (auto dest: chain_suffix)
    with na show False by (simp add: next_of_def)
  qed
  have ci: "chain inst (val st s) ps fat"
  proof (rule chain_cong [OF c])
    show "\<forall>q\<in>set ps. next_of inst q = next_of st q"
      using aps by (auto simp add: next_of_def hi)
    show "fat_at inst fat \<noteq> None"
      using hf af by (simp add: fat_at_def hi)
  qed
  have ff: "peg_find_fat inst (val st s) = Some fat"
    by (rule peg_find_fat_chain [OF ci])
  define stA where "stA = st\<lparr>trace := trace st @ [Malloc a, MutexLock fat],
      val := (val st)(s := fat),
      heap := (heap st)(a \<mapsto> PegObj \<lparr>peg_refcount = 2, peg_next = val st s\<rparr>,
                       fat \<mapsto> FatObj (f\<lparr>refcount := refcount f + 1\<rparr>))\<rparr>"
  define st2 where "st2 = st\<lparr>trace := trace st @ [Malloc a, MutexLock fat, AtomicSub a 2 0, Free a],
      val := (val st)(s := fat),
      heap := (heap st)(fat \<mapsto> FatObj (f\<lparr>refcount := refcount f + 1\<rparr>))\<rparr>"
  have hA: "heap stA a = Some (PegObj \<lparr>peg_refcount = 2, peg_next = val st s\<rparr>)"
    using af by (simp add: stA_def)
  have st2': "stA\<lparr>heap := (heap stA)(a := None), trace := trace stA @ [AtomicSub a 2 0, Free a]\<rparr> = st2"
    using af na by (auto intro!: state.equality simp add: stA_def st2_def fun_upd_twist)
  have rel: "peg_release s a fat (inst\<lparr>trace := trace inst @ [MutexLock fat]\<rparr>)
      = peg_retire fat a 2 stA"
    using hf af
    by (simp add: peg_release_def atomic_xchg_def fat_modify_def fat_at_def fat_set_def
        peg_walk_own stA_def inst_def installed_def a_def)
  have ret: "peg_retire fat a 2 stA =
      (if val st s = fat then fat_modify fat (\<lambda>f. f\<lparr>refcount := refcount f - 1\<rparr>) st2
       else peg_retire fat (val st s) 1 st2)"
    unfolding peg_retire_own [OF hA] st2' ..
  have h2: "heap st2 = (heap st)(fat \<mapsto> FatObj (f\<lparr>refcount := refcount f + 1\<rparr>))"
    by (simp add: st2_def)
  have n2: "next_of st2 b = next_of st b" for b
    using hf by (auto simp add: next_of_def h2)
  have tail: "\<exists>rest st'. peg_retire fat a 2 stA = Some st'
     \<and> trace st' = trace st2 @ rest \<and> val st' = val st2
     \<and> accounted fat 1 (word_refs st s rest) rest st st'
     \<and> freed_at_zero rest \<and> (\<forall>e\<in>set rest. \<not> is_wait e) \<and> (\<forall>ax\<in>set (subs rest). snd ax = 1)"
  proof (cases "val st s = fat")
    case True
    define st' where "st' = fat_set fat (f\<lparr>refcount := refcount f + 1 - 1\<rparr>) st2"
    have r: "peg_retire fat a 2 stA = Some st'"
      using True by (simp add: ret fat_modify_def fat_at_def h2 st'_def)
    have "accounted fat 1 (word_refs st s []) [] st st'"
      using True hf
      by (auto simp add: accounted_def word_refs_def st'_def fat_set_def h2
          split: option.splits obj.splits)
    with r show ?thesis
      by (intro exI [of _ "[]"] exI [of _ st']) (simp add: st'_def fat_set_def)
  next
    case False
    with c obtain qs where ps: "ps = val st s # qs"
      by (cases ps) auto
    have c2: "chain st2 (val st s) (val st s # qs) fat"
    proof (rule chain_cong)
      show "chain st (val st s) (val st s # qs) fat" using c ps by simp
      show "\<forall>q\<in>set (val st s # qs). next_of st2 q = next_of st q" by (simp add: n2)
      show "fat_at st2 fat \<noteq> None" by (simp add: fat_at_def h2)
    qed
    from peg_retire_total [OF c2] obtain st' where r: "peg_retire fat (val st s) 1 st2 = Some st'" ..
    have u: "unat (1 :: 32 word) = 1" by simp
    from peg_retire_accounted [OF r, unfolded u] obtain evs where
      t': "trace st' = trace st2 @ evs" and v': "val st' = val st2"
      and acc: "accounted fat 0 (\<lambda>x. arrivals st2 evs x + (if x = val st s then 1 else 0)) evs st2 st'"
      by blast
    have "arrivals st2 evs x = arrivals st evs x" for x
      by (rule arrivals_cong) (simp add: n2)
    then have "(\<lambda>x. arrivals st2 evs x + (if x = val st s then 1 else 0)) = word_refs st s evs"
      by (auto simp add: word_refs_def fun_eq_iff)
    with acc have "accounted fat 0 (word_refs st s evs) evs st2 st'" by simp
    from accounted_inc [OF f h2 this] have acc1: "accounted fat 1 (word_refs st s evs) evs st st'" .
    from peg_retire_trace [OF r] obtain x e2 where
      tt: "trace st' = trace st2 @ AtomicSub (val st s) (ucast (1 :: 32 word)) x # e2"
      and fz: "freed_at_zero (AtomicSub (val st s) (ucast (1 :: 32 word)) x # e2)"
      and nw: "\<forall>e\<in>set e2. \<not> is_wait e" and one: "\<forall>ax\<in>set (subs e2). snd ax = 1"
      by blast
    from t' tt have evs: "evs = AtomicSub (val st s) (ucast (1 :: 32 word)) x # e2" by simp
    have "freed_at_zero evs" "\<forall>e\<in>set evs. \<not> is_wait e" "\<forall>ax\<in>set (subs evs). snd ax = 1"
      using fz nw one by (simp_all add: evs is_wait_def)
    with r t' v' acc1 False show ?thesis
      by (intro exI [of _ evs] exI [of _ st']) (simp add: ret)
  qed
  then obtain rest st' where
    r: "peg_retire fat a 2 stA = Some st'" and t: "trace st' = trace st2 @ rest"
    and v: "val st' = val st2" and acc: "accounted fat 1 (word_refs st s rest) rest st st'"
    and tr: "freed_at_zero rest" "\<forall>e\<in>set rest. \<not> is_wait e" "\<forall>ax\<in>set (subs rest). snd ax = 1"
    by blast
  have "fat_mutex_peg h s (val st s) st =
      Some (status h (trace st @ [Malloc a]) (MutexLock fat), Some fat, st')"
    using nz gt ff rel r
    by (simp add: fat_mutex_peg_eq a_def [symmetric] inst_def [symmetric] ti)
  with t v acc tr show ?thesis
    unfolding a_def [symmetric]
    by (intro exI [of _ rest] exI [of _ st']) (simp add: st2_def)
qed

lemma accounted_fat_at:
  "accounted fat inc d evs st st' \<Longrightarrow> fat_at st fat = Some f \<Longrightarrow>
   fat_at st' fat = Some (f\<lparr>refcount := refcount f + inc - of_nat (d fat)\<rparr>)"
  by (auto simp add: accounted_def fat_at_def split: option.splits obj.splits)

lemma accounted_heap_cong:
  "accounted fat inc d evs st st' \<Longrightarrow> heap st'' = heap st' \<Longrightarrow> accounted fat inc d evs st st''"
  by (simp add: accounted_def)

lemma fat_mutex_peg_has_chain:
  assumes peg: "fat_mutex_peg h s (val st s) st = Some (res, Some fat, st1)"
    and fresh: "alloc h (trace st) \<notin> dom (heap st)"
  shows "\<exists>ps. chain st (val st s) ps fat"
proof -
  define a where "a = alloc h (trace st)"
  define inst where "inst = installed h s st"
  have hi: "heap inst = (heap st)(a \<mapsto> PegObj \<lparr>peg_refcount = 2, peg_next = val st s\<rparr>)"
    by (simp add: inst_def installed_def a_def)
  from peg have "peg_find_fat inst (val st s) = Some fat"
    by (auto simp add: fat_mutex_peg_eq inst_def split: if_splits option.splits)
  from chain_find [OF this] obtain ps where c: "chain inst (val st s) ps fat" ..
  have aps: "a \<notin> set ps"
  proof
    assume "a \<in> set ps"
    then obtain xs ys where s: "ps = xs @ a # ys" by (auto dest: split_list)
    with c have "chain inst a (a # ys) fat" by (auto dest: chain_suffix)
    then have "chain inst (val st s) ys fat" by (simp add: next_of_def hi)
    from chain_unique [OF this c] s show False by simp
  qed
  have fa: "fat \<noteq> a"
    using chain_fat [OF c] by (auto simp add: fat_at_def hi)
  have "chain st (val st s) ps fat"
  proof (rule chain_cong [OF c])
    show "\<forall>q\<in>set ps. next_of st q = next_of inst q"
      using aps by (auto simp add: next_of_def hi)
    show "fat_at st fat \<noteq> None"
      using chain_fat [OF c] fa by (simp add: fat_at_def hi)
  qed
  then show ?thesis ..
qed

section \<open>Runs on the concrete memories\<close>



lemma peg_release_stacked_trace:
  "peg_release 5 3 2 (stacked\<lparr>trace := t\<rparr>)
     = Some (unstacked\<lparr>trace := t @ [AtomicSub 3 2 0, Free 3, AtomicSub 4 1 1]\<rparr>)"
  apply (simp add: peg_release_def atomic_xchg_def fat_modify_def fat_at_def fat_set_def
      stacked_def)
  apply (subst peg_walk.simps)
  apply simp
  apply (subst peg_retire.simps)
  apply (simp add: atomic_sub_and_test_def Let_def free_def)
  apply (subst peg_retire.simps)
  apply (simp add: atomic_sub_and_test_def Let_def unstacked_def)
  done

lemma installed_pegged:
  "alloc h [] = 3 \<Longrightarrow> installed h 5 pegged = stacked\<lparr>trace := [Malloc 3]\<rparr>"
  by (auto simp add: installed_def pegged_def stacked_def)

lemma find_stacked: "peg_find_fat (stacked\<lparr>trace := t\<rparr>) 4 = Some 2"
  apply (subst peg_find_fat.simps)
  apply (simp add: stacked_def)
  apply (subst peg_find_fat.simps)
  apply simp
  done

lemma peg_pegged:
  "alloc h [] = 3 \<Longrightarrow>
   fat_mutex_peg h 5 4 pegged =
     Some (status h [Malloc 3] (MutexLock 2), Some 2,
           unstacked\<lparr>trace := [Malloc 3, MutexLock 2, AtomicSub 3 2 0, Free 3, AtomicSub 4 1 1]\<rparr>)"
proof -
  assume a: "alloc h [] = 3"
  have v: "val pegged 5 = 4" "trace pegged = []"
    by (simp_all add: pegged_def)
  show ?thesis
    by (simp add: fat_mutex_peg_eq v a installed_pegged [OF a] find_stacked
        peg_release_stacked_trace)
qed

lemma veto_pegged: "skinny_mutex_veto_transfer (calm 3) 5 pegged = Some (Ret 0, vetoed)"
proof -
  have v: "val pegged 5 = 4" by (simp add: pegged_def)
  have f: "fat_at (unstacked\<lparr>trace := t\<rparr>) 2
      = Some \<lparr>held = True, waiters = 1, refcount = 3, transfer_gen = 0, transfers = 1\<rparr>" for t
    by (simp add: unstacked_def fat_at_def)
  have "skinny_mutex_veto_transfer (calm 3) 5 pegged =
      Some (Ret 0,
        (fat_set 2 \<lparr>held = True, waiters = 1, refcount = 3, transfer_gen = 1, transfers = 1\<rparr>
           (unstacked\<lparr>trace := [Malloc 3, MutexLock 2, AtomicSub 3 2 0, Free 3, AtomicSub 4 1 1]\<rparr>))
          \<lparr>trace := [Malloc 3, MutexLock 2, AtomicSub 3 2 0, Free 3, AtomicSub 4 1 1,
                      CondBroadcast 2, MutexUnlock 2]\<rparr>)"
    by (subst skinny_mutex_veto_transfer.simps)
       (simp add: v Let_def peg_pegged [of "calm 3"] veto_fat_eq [OF f] recover_def)
  also have "(fat_set 2 \<lparr>held = True, waiters = 1, refcount = 3, transfer_gen = 1, transfers = 1\<rparr>
           (unstacked\<lparr>trace := [Malloc 3, MutexLock 2, AtomicSub 3 2 0, Free 3, AtomicSub 4 1 1]\<rparr>))
          \<lparr>trace := [Malloc 3, MutexLock 2, AtomicSub 3 2 0, Free 3, AtomicSub 4 1 1,
                      CondBroadcast 2, MutexUnlock 2]\<rparr> = vetoed"
    by (auto simp add: fat_set_def unstacked_def vetoed_def)
  finally show ?thesis .
qed

lemma trylock_pegged:
  "skinny_mutex_trylock (calm 3) 5 pegged =
     Some (Ret EBUSY, unstacked\<lparr>trace := [Malloc 3, MutexLock 2, AtomicSub 3 2 0, Free 3,
                                             AtomicSub 4 1 1, MutexUnlock 2]\<rparr>)"
proof -
  have v: "val pegged 5 = 4" by (simp add: pegged_def)
  have f: "fat_at (unstacked\<lparr>trace := t\<rparr>) 2
      = Some \<lparr>held = True, waiters = 1, refcount = 3, transfer_gen = 0, transfers = 1\<rparr>" for t
    by (simp add: unstacked_def fat_at_def)
  show ?thesis
    by (subst skinny_mutex_trylock.simps)
       (simp add: v Let_def peg_pegged [of "calm 3"] trylock_fat_eq [OF f] recover_def)
qed

section \<open>The refcounts in the peg protocol\<close>




section \<open>Release of a fat mutex\<close>

text \<open>
  C2, as the specification states it, has the condition variable destroyed before the
  mutex. The code destroys the mutex first: releasing the last reference of a fat mutex
  that the skinny mutex points to gives the calls unlock, destroy mutex, destroy
  condition variable, free, in this order.
\<close>

theorem release_order_counterexample:
  "map_option (\<lambda>(res, st). (res, trace st)) (fat_mutex_release (calm 0) 5 2 (lone_fat False 1))
     = Some (0, [MutexUnlock 2, MutexDestroy 2, CondDestroy 2, Free 2])
   \<and> [MutexUnlock 2, MutexDestroy 2, CondDestroy 2, Free 2]
       \<noteq> [MutexUnlock 2, CondDestroy 2, MutexDestroy 2, Free 2]"
  by (simp add: fat_mutex_release_def release_keep_def fat_at_def fat_set_def CAS_def
      host_defs calm_def lone_fat_def free_def)

text \<open>
  C2, amended. A call of \<^verbatim>\<open>fat_mutex_release\<close> on an allocated fat mutex returns. The
  refcount is decremented; the word of the skinny mutex is set to 0 exactly when the
  decremented refcount is zero and the word pointed to the fat mutex, otherwise the fat
  mutex is kept. The mutex is unlocked in every case, as the first call made. When the
  fat mutex is not kept and the unlock succeeded, the mutex is destroyed, then the
  condition variable, then the fat mutex is freed; the first of these calls that fails
  ends the function with its status, and what is left of the fat mutex stays allocated.
\<close>

theorem release_spec:
  fixes h :: host and skinny fat :: addr and st :: state and f :: fat_mutex
  assumes "fat_at st fat = Some f"
  defines "keep \<equiv> refcount f - 1 \<noteq> 0 \<or> val st skinny \<noteq> fat"
  defines "t1 \<equiv> trace st @ [MutexUnlock fat]"
  defines "t2 \<equiv> t1 @ [MutexDestroy fat]"
  defines "t3 \<equiv> t2 @ [CondDestroy fat]"
  defines "u \<equiv> status h (trace st) (MutexUnlock fat)"
  defines "d1 \<equiv> status h t1 (MutexDestroy fat)"
  defines "d2 \<equiv> status h t2 (CondDestroy fat)"
  shows "\<exists>res st'. fat_mutex_release h skinny fat st = Some (res, st')
     \<and> val st' = (if refcount f - 1 = 0 \<and> val st skinny = fat then (val st)(skinny := 0) else val st)
     \<and> (if keep \<or> u \<noteq> 0 then
          res = u \<and> trace st' = t1 \<and> fat_at st' fat = Some (f\<lparr>refcount := refcount f - 1\<rparr>)
        else if d1 \<noteq> 0 then
          res = d1 \<and> trace st' = t2 \<and> fat_at st' fat = Some (f\<lparr>refcount := refcount f - 1\<rparr>)
        else if d2 \<noteq> 0 then
          res = d2 \<and> trace st' = t3 \<and> fat_at st' fat = Some (f\<lparr>refcount := refcount f - 1\<rparr>)
        else res = 0 \<and> trace st' = t3 @ [Free fat] \<and> heap st' fat = None)"
  unfolding keep_def t1_def t2_def t3_def u_def d1_def d2_def
  by (simp add: fat_mutex_release_def release_keep_eq [OF assms(1)] fat_at_def fat_set_def
      host_defs free_def)

theorem release_spec_witness:
  "fat_at (lone_fat False 1) 2
     = Some \<lparr>held = False, waiters = 0, refcount = 1, transfer_gen = 0, transfers = 0\<rparr>
   \<and> (\<exists>st'. fat_mutex_release (calm 0) 5 2 (lone_fat False 1) = Some (0, st')
        \<and> val st' 5 = 0 \<and> heap st' 2 = None
        \<and> trace st' = [MutexUnlock 2, MutexDestroy 2, CondDestroy 2, Free 2])"
  using release_spec [where st = "lone_fat False 1" and fat = 2 and skinny = 5 and h = "calm 0"
      and f = "\<lparr>held = False, waiters = 0, refcount = 1, transfer_gen = 0, transfers = 0\<rparr>"]
  by (auto simp add: calm_def lone_fat_def fat_at_def)

section \<open>Promotion\<close>

text \<open>
  C6. A promotion with \<open>head \<le> 1\<close> gives the new fat mutex \<open>held = (head = 1)\<close>, a
  refcount of 1 when held and of 0 otherwise, and \<open>waiters\<close>, \<open>transfer_gen\<close> and
  \<open>transfers\<close> of 0. When the compare-and-swap that installs it fails, the mutex is
  unlocked, the condition variable and the mutex are destroyed, the fat mutex is freed
  and \<open>-1\<close> is returned. When the initialisation of the mutex, of the condition variable,
  or the locking fails, what was initialised before is destroyed in reverse order, the
  fat mutex is freed and that status is returned. On every return other than success
  the heap is the one before the call and the word of the skinny mutex is unchanged.
\<close>

theorem promote_spec:
  fixes h :: host and skinny head :: addr and st :: state
  assumes "head \<le> 1"
  defines "a \<equiv> alloc h (trace st)"
  defines "t0 \<equiv> trace st @ [Malloc a]"
  defines "r1 \<equiv> status h t0 (MutexInit a)"
  defines "r2 \<equiv> status h (t0 @ [MutexInit a]) (CondInit a)"
  defines "r3 \<equiv> status h (t0 @ [MutexInit a, CondInit a]) (MutexLock a)"
  shows "case skinny_mutex_promote h skinny head st of
     (res, fatp, st') \<Rightarrow>
       if a = 0 then res = ENOMEM \<and> st' = st\<lparr>trace := t0\<rparr>
       else if r1 \<noteq> 0 then
         res = r1 \<and> trace st' = t0 @ [MutexInit a, Free a]
         \<and> heap st' = (heap st)(a := None) \<and> val st' = val st
       else if r2 \<noteq> 0 then
         res = r2 \<and> trace st' = t0 @ [MutexInit a, CondInit a, MutexDestroy a, Free a]
         \<and> heap st' = (heap st)(a := None) \<and> val st' = val st
       else if r3 \<noteq> 0 then
         res = r3
         \<and> trace st' = t0 @ [MutexInit a, CondInit a, MutexLock a,
                              CondDestroy a, MutexDestroy a, Free a]
         \<and> heap st' = (heap st)(a := None) \<and> val st' = val st
       else if val st skinny \<noteq> head then
         res = - 1
         \<and> trace st' = t0 @ [MutexInit a, CondInit a, MutexLock a,
                              MutexUnlock a, CondDestroy a, MutexDestroy a, Free a]
         \<and> heap st' = (heap st)(a := None) \<and> val st' = val st
       else
         res = 0 \<and> fatp = Some a
         \<and> trace st' = t0 @ [MutexInit a, CondInit a, MutexLock a]
         \<and> val st' = (val st)(skinny := a)
         \<and> heap st' = (heap st)(a \<mapsto> FatObj \<lparr>held = (head = 1), waiters = 0,
               refcount = (if head = 1 then 1 else 0), transfer_gen = 0, transfers = 0\<rparr>)"
proof -
  have fields: "promote_fields head = \<lparr>held = (head = 1), waiters = 0,
      refcount = (if head = 1 then 1 else 0), transfer_gen = 0, transfers = 0\<rparr>"
    using assms(1) by (auto simp add: promote_fields_def Let_def)
  show ?thesis
    unfolding a_def t0_def r1_def r2_def r3_def
    by (simp add: skinny_mutex_promote_def malloc_def Let_def fields host_defs
        promote_err_mutex_lock_def promote_err_cond_init_def promote_err_mutex_init_def
        fat_set_def free_def CAS_def ENOMEM_def)
qed

theorem promote_spec_witness:
  "(1::nat) \<le> 1 \<and>
   (case skinny_mutex_promote (calm 2) 5 1
           \<lparr>val = (\<lambda>_. 0)(5 := 1), heap = Map.empty, trace = []\<rparr> of
      (res, fatp, st') \<Rightarrow>
        res = 0 \<and> fatp = Some 2 \<and> val st' 5 = 2
        \<and> fat_at st' 2 = Some \<lparr>held = True, waiters = 0, refcount = 1,
                                  transfer_gen = 0, transfers = 0\<rparr>)
   \<and> (case skinny_mutex_promote (calm 2) 5 0
           \<lparr>val = (\<lambda>_. 0)(5 := 1), heap = Map.empty, trace = []\<rparr> of
      (res, fatp, st') \<Rightarrow> res = - 1 \<and> heap st' = Map.empty)"
  using promote_spec [where head = 1 and h = "calm 2" and skinny = 5
      and st = "\<lparr>val = (\<lambda>_. 0)(5 := 1), heap = Map.empty, trace = []\<rparr>"]
    promote_spec [where head = 0 and h = "calm 2" and skinny = 5
      and st = "\<lparr>val = (\<lambda>_. 0)(5 := 1), heap = Map.empty, trace = []\<rparr>"]
  by (simp add: calm_def fat_at_def split: prod.splits)

section \<open>Slow unlock\<close>

text \<open>
  C7, as the specification states it, has the slow unlock return not-owner whenever the
  fat mutex it found is not held. The code unlocks the mutex of the fat mutex first and
  returns the status of that unlock when it is not 0: with \<^verbatim>\<open>pthread_mutex_unlock\<close>
  returning 22, \<^verbatim>\<open>skinny_mutex_unlock_slow\<close> on a fat mutex that is not held returns 22.
\<close>

theorem unlock_slow_counterexample:
  "skinny_mutex_unlock_slow (failing (MutexUnlock 2) 22 3) 5 (lone_fat False 0)
     = Some (Ret 22, (lone_fat False 0)\<lparr>trace := [Malloc 3, MutexLock 2, AtomicSub 3 2 0,
                                                   Free 3, MutexUnlock 2]\<rparr>)
   \<and> EPERM \<noteq> 22"
proof -
  have p: "fat_mutex_peg (failing (MutexUnlock 2) 22 3) 5 2 (lone_fat False 0)
      = Some (0, Some 2, (lone_fat False 0)\<lparr>trace := [Malloc 3, MutexLock 2, AtomicSub 3 2 0, Free 3]\<rparr>)"
    by (simp add: peg_lone_fat [of 3])
  show ?thesis
    unfolding skinny_mutex_unlock_slow_def
    apply (subst fat_mutex_get_held.simps)
    apply (simp add: p Let_def fat_mutex_get_def host_defs EPERM_def)
    done
qed

text \<open>
  C7, amended. When the word is 0 the slow unlock returns not-owner and changes
  nothing. Otherwise it calls \<^verbatim>\<open>fat_mutex_get\<close> and returns a positive status of that
  call as it is. With the fat mutex locked: when \<open>held\<close> is clear, the word was a
  pointer, the mutex is unlocked, and the result is not-owner when the unlock succeeds
  and the status of the unlock otherwise; \<open>held\<close>, \<open>waiters\<close>, \<open>transfer_gen\<close>,
  \<open>transfers\<close> and the refcount without the contributions of the peg chains are as
  before the call (for a finite heap and an allocator that returns fresh memory). When
  \<open>held\<close> is set, it is cleared, the condition variable is signalled exactly when
  \<open>waiters\<close> is not 0, and then the fat mutex is released; the result composes the
  status of the signal with that of the release.
\<close>

theorem unlock_slow_spec:
  "(val st s = 0 \<longrightarrow> skinny_mutex_unlock_slow h s st = Some (Ret EPERM, st))
   \<and> (val st s \<noteq> 0 \<longrightarrow>
        (\<forall>res fatp st1. fat_mutex_get h s (val st s) st = Some (res, fatp, st1) \<longrightarrow>
           (0 < res \<longrightarrow> skinny_mutex_unlock_slow h s st = Some (Ret res, st1))
           \<and> (res = 0 \<longrightarrow>
                (\<forall>fat f. fatp = Some fat \<longrightarrow> fat_at st1 fat = Some f \<longrightarrow>
                   (\<not> held f \<longrightarrow>
                      skinny_mutex_unlock_slow h s st =
                        Some (Ret (if status h (trace st1) (MutexUnlock fat) = 0 then EPERM
                                   else status h (trace st1) (MutexUnlock fat)),
                              st1\<lparr>trace := trace st1 @ [MutexUnlock fat]\<rparr>)
                      \<and> 1 < val st s
                      \<and> (alloc h (trace st) \<notin> dom (heap st) \<longrightarrow> finite (dom (heap st)) \<longrightarrow>
                           (\<exists>f0. fat_at st fat = Some f0 \<and> same_fields f0 f
                              \<and> net_refcount st1 s fat = net_refcount st s fat)))
                   \<and> (held f \<longrightarrow>
                        (\<exists>res2 st2.
                           fat_mutex_release h s fat
                             ((fat_set fat (f\<lparr>held := False\<rparr>) st1)
                                \<lparr>trace := trace st1
                                    @ (if waiters f \<noteq> 0 then [CondSignal fat] else [])\<rparr>)
                             = Some (res2, st2)
                           \<and> skinny_mutex_unlock_slow h s st =
                               Some (recover (if waiters f \<noteq> 0
                                              then status h (trace st1) (CondSignal fat) else 0)
                                       res2, st2)))))))"
proof (intro conjI impI allI)
  assume "val st s = 0"
  then show "skinny_mutex_unlock_slow h s st = Some (Ret EPERM, st)"
    unfolding skinny_mutex_unlock_slow_def
    by (subst fat_mutex_get_held.simps) (simp add: EPERM_def)
next
  fix res fatp st1
  assume "val st s \<noteq> 0" "fat_mutex_get h s (val st s) st = Some (res, fatp, st1)" "0 < res"
  then show "skinny_mutex_unlock_slow h s st = Some (Ret res, st1)"
    unfolding skinny_mutex_unlock_slow_def
    by (subst fat_mutex_get_held.simps) simp
next
  fix res fatp st1 fat f
  assume a: "val st s \<noteq> 0" "fat_mutex_get h s (val st s) st = Some (res, fatp, st1)" "res = 0"
    "fatp = Some fat" "fat_at st1 fat = Some f" "\<not> held f"
  then show "skinny_mutex_unlock_slow h s st =
      Some (Ret (if status h (trace st1) (MutexUnlock fat) = 0 then EPERM
                 else status h (trace st1) (MutexUnlock fat)),
            st1\<lparr>trace := trace st1 @ [MutexUnlock fat]\<rparr>)"
    unfolding skinny_mutex_unlock_slow_def
    by (subst fat_mutex_get_held.simps) (simp add: host_defs EPERM_def)
  show gt: "1 < val st s"
  proof (rule ccontr)
    assume "\<not> 1 < val st s"
    with a(2,3,4) have "skinny_mutex_promote h s (val st s) st = (0, Some fat, st1)"
      by (simp add: fat_mutex_get_def)
    from promote_fat [OF this] a(5) a(1) have "held f"
      by (simp add: promote_fields_def Let_def)
    with a(6) show False ..
  qed
  show "\<exists>f0. fat_at st fat = Some f0 \<and> same_fields f0 f
      \<and> net_refcount st1 s fat = net_refcount st s fat"
    if fresh: "alloc h (trace st) \<notin> dom (heap st)" and fin: "finite (dom (heap st))"
  proof -
    from gt a(2,3,4) have "fat_mutex_peg h s (val st s) st = Some (0, Some fat, st1)"
      by (simp add: fat_mutex_get_def)
    from fat_mutex_peg_frame [OF this fresh fin] a(5) show ?thesis
      by auto
  qed
next
  fix res fatp st1 fat f
  assume a: "val st s \<noteq> 0" "fat_mutex_get h s (val st s) st = Some (res, fatp, st1)" "res = 0"
    "fatp = Some fat" "fat_at st1 fat = Some f" "held f"
  let ?stA = "(fat_set fat (f\<lparr>held := False\<rparr>) st1)
      \<lparr>trace := trace st1 @ (if waiters f \<noteq> 0 then [CondSignal fat] else [])\<rparr>"
  have "fat_at ?stA fat = Some (f\<lparr>held := False\<rparr>)"
    by (simp add: fat_at_fat_set)
  from fat_mutex_release_Some [OF this] obtain res2 st2 where
    rel: "fat_mutex_release h s fat ?stA = Some (res2, st2)" by blast
  have "skinny_mutex_unlock_slow h s st = unlock_fat h s fat st1"
    using a unfolding skinny_mutex_unlock_slow_def
    by (subst fat_mutex_get_held.simps) simp
  with rel show "\<exists>res2 st2. fat_mutex_release h s fat ?stA = Some (res2, st2)
      \<and> skinny_mutex_unlock_slow h s st =
          Some (recover (if waiters f \<noteq> 0 then status h (trace st1) (CondSignal fat) else 0)
                  res2, st2)"
    by (simp add: unlock_fat_eq [OF a(5)])
qed

theorem unlock_slow_spec_witness:
  "val (lone_fat True 1) 5 \<noteq> 0
   \<and> fat_mutex_get (calm 3) 5 (val (lone_fat True 1) 5) (lone_fat True 1)
       = Some (0, Some 2, (lone_fat True 1)\<lparr>trace := [Malloc 3, MutexLock 2, AtomicSub 3 2 0, Free 3]\<rparr>)
   \<and> skinny_mutex_unlock_slow (calm 3) 5 (lone_fat True 1)
       = Some (Ret 0, \<lparr>val = (\<lambda>_. 0)(5 := 0), heap = Map.empty,
                        trace = [Malloc 3, MutexLock 2, AtomicSub 3 2 0, Free 3,
                                 MutexUnlock 2, MutexDestroy 2, CondDestroy 2, Free 2]\<rparr>)"
proof -
  have p: "fat_mutex_get (calm 3) 5 (val (lone_fat True 1) 5) (lone_fat True 1)
       = Some (0, Some 2, (lone_fat True 1)\<lparr>trace := [Malloc 3, MutexLock 2, AtomicSub 3 2 0, Free 3]\<rparr>)"
    by (simp add: fat_mutex_get_def peg_lone_fat [of 3])
  have r: "fat_mutex_release (calm 3) 5 2
      ((fat_set 2 \<lparr>held = False, waiters = 0, refcount = 1, transfer_gen = 0, transfers = 0\<rparr>
          ((lone_fat True 1)\<lparr>trace := [Malloc 3, MutexLock 2, AtomicSub 3 2 0, Free 3]\<rparr>))
         \<lparr>trace := [Malloc 3, MutexLock 2, AtomicSub 3 2 0, Free 3]\<rparr>)
     = Some (0, \<lparr>val = (\<lambda>_. 0)(5 := 0), heap = Map.empty,
                  trace = [Malloc 3, MutexLock 2, AtomicSub 3 2 0, Free 3,
                           MutexUnlock 2, MutexDestroy 2, CondDestroy 2, Free 2]\<rparr>)"
    by (simp add: fat_mutex_release_def release_keep_def fat_at_def fat_set_def CAS_def
        host_defs lone_fat_def free_def)
  show ?thesis
    using unlock_slow_spec [of "lone_fat True 1" 5 "calm 3"] p r
    by (simp add: recover_def)
qed

section \<open>Try-acquire\<close>




section \<open>\<^verbatim>\<open>skinny_mutex_veto_transfer\<close>\<close>

text \<open>
  C9. When the word is 1, \<^verbatim>\<open>skinny_mutex_veto_transfer\<close> returns ok, and when it is 0
  it returns not-owner, both without a change. Otherwise take a word from which \<open>next\<close>
  leads through the pegs \<open>ps\<close> to the fat mutex \<open>fat\<close>, and an allocator that returns
  fresh memory. The call returns. It allocates its peg, locks the mutex of the fat
  mutex at the end of the chain, and releases the peg (which is freed; \<open>rest\<close> are the
  events of the walk down the old chain). When the lock fails with a positive status,
  that status is returned. When the lock succeeds: \<open>transfer_gen\<close> is incremented
  exactly when \<open>held\<close> is set, the condition variable is broadcast exactly when \<open>held\<close>
  is set and \<open>transfers\<close> is not 0, and the mutex is unlocked last, in every case;
  \<open>held\<close>, \<open>waiters\<close> and \<open>transfers\<close> are unchanged, the refcount is the one the peg
  protocol leaves, and the word points to the fat mutex. The result composes the status
  of the broadcast (not-owner when \<open>held\<close> is clear) with that of the unlock.
\<close>

theorem veto_spec:
  "(val st s = 1 \<longrightarrow> skinny_mutex_veto_transfer h s st = Some (Ret 0, st))
   \<and> (val st s = 0 \<longrightarrow> skinny_mutex_veto_transfer h s st = Some (Ret EPERM, st))
   \<and> (1 < val st s \<longrightarrow> chain st (val st s) ps fat \<longrightarrow> fat_at st fat = Some f \<longrightarrow>
        alloc h (trace st) \<notin> dom (heap st) \<longrightarrow> alloc h (trace st) \<noteq> 0 \<longrightarrow>
        (0 < status h (trace st @ [Malloc (alloc h (trace st))]) (MutexLock fat) \<longrightarrow>
           (\<exists>st'. skinny_mutex_veto_transfer h s st =
              Some (Ret (status h (trace st @ [Malloc (alloc h (trace st))]) (MutexLock fat)), st')))
        \<and> (status h (trace st @ [Malloc (alloc h (trace st))]) (MutexLock fat) = 0 \<longrightarrow>
             (\<exists>r st' f' rest.
                skinny_mutex_veto_transfer h s st = Some (r, st')
              \<and> trace st' = trace st
                   @ [Malloc (alloc h (trace st)), MutexLock fat,
                      AtomicSub (alloc h (trace st)) 2 0, Free (alloc h (trace st))]
                   @ rest
                   @ (if held f \<and> transfers f \<noteq> 0 then [CondBroadcast fat] else [])
                   @ [MutexUnlock fat]
              \<and> freed_at_zero rest \<and> (\<forall>ax\<in>set (subs rest). snd ax = 1)
              \<and> (\<forall>e\<in>set rest. \<not> is_wait e)
              \<and> val st' = (val st)(s := fat)
              \<and> fat_at st' fat = Some f'
              \<and> held f' = held f \<and> waiters f' = waiters f \<and> transfers f' = transfers f
              \<and> transfer_gen f' = (if held f then transfer_gen f + 1 else transfer_gen f)
              \<and> refcount f' = refcount f + 1 - of_nat (word_refs st s rest fat)
              \<and> r = recover
                    (if held f
                     then (if transfers f \<noteq> 0
                           then status h (butlast (butlast (trace st'))) (CondBroadcast fat) else 0)
                     else EPERM)
                    (status h (butlast (trace st')) (MutexUnlock fat)))))"
proof (intro conjI impI)
  assume "val st s = 1"
  then show "skinny_mutex_veto_transfer h s st = Some (Ret 0, st)"
    by (subst skinny_mutex_veto_transfer.simps) simp
next
  assume "val st s = 0"
  then show "skinny_mutex_veto_transfer h s st = Some (Ret EPERM, st)"
    by (subst skinny_mutex_veto_transfer.simps) simp
next
  assume gt: "1 < val st s" and c: "chain st (val st s) ps fat" and f: "fat_at st fat = Some f"
    and fresh: "alloc h (trace st) \<notin> dom (heap st)" and nz: "alloc h (trace st) \<noteq> 0"
    and l: "0 < status h (trace st @ [Malloc (alloc h (trace st))]) (MutexLock fat)"
  from fat_mutex_peg_chain [OF gt c f fresh nz] obtain rest st1 where
    "fat_mutex_peg h s (val st s) st =
       Some (status h (trace st @ [Malloc (alloc h (trace st))]) (MutexLock fat), Some fat, st1)"
    by blast
  with gt l have "skinny_mutex_veto_transfer h s st =
      Some (Ret (status h (trace st @ [Malloc (alloc h (trace st))]) (MutexLock fat)), st1)"
    by (subst skinny_mutex_veto_transfer.simps) simp
  then show "\<exists>st'. skinny_mutex_veto_transfer h s st =
      Some (Ret (status h (trace st @ [Malloc (alloc h (trace st))]) (MutexLock fat)), st')" ..
next
  assume gt: "1 < val st s" and c: "chain st (val st s) ps fat" and f: "fat_at st fat = Some f"
    and fresh: "alloc h (trace st) \<notin> dom (heap st)" and nz: "alloc h (trace st) \<noteq> 0"
    and l: "status h (trace st @ [Malloc (alloc h (trace st))]) (MutexLock fat) = 0"
  let ?a = "alloc h (trace st)"
  from fat_mutex_peg_chain [OF gt c f fresh nz] l obtain rest st1 where
    peg: "fat_mutex_peg h s (val st s) st = Some (0, Some fat, st1)"
    and t1: "trace st1 = trace st @ [Malloc ?a, MutexLock fat, AtomicSub ?a 2 0, Free ?a] @ rest"
    and v1: "val st1 = (val st)(s := fat)"
    and acc: "accounted fat 1 (word_refs st s rest) rest st st1"
    and tr: "freed_at_zero rest" "\<forall>e\<in>set rest. \<not> is_wait e" "\<forall>ax\<in>set (subs rest). snd ax = 1"
    by auto
  define f1 where "f1 = f\<lparr>refcount := refcount f + 1 - of_nat (word_refs st s rest fat)\<rparr>"
  have f1: "fat_at st1 fat = Some f1"
    using accounted_fat_at [OF acc f] by (simp add: f1_def)
  have v: "skinny_mutex_veto_transfer h s st = veto_fat h fat st1"
    using gt peg by (subst skinny_mutex_veto_transfer.simps) simp
  define st' where "st' = (if held f1 then fat_set fat (f1\<lparr>transfer_gen := transfer_gen f1 + 1\<rparr>) st1 else st1)
             \<lparr>trace := trace st1 @ (if held f1 \<and> transfers f1 \<noteq> 0 then [CondBroadcast fat] else [])
                          @ [MutexUnlock fat]\<rparr>"
  define f' where "f' = (if held f1 then f1\<lparr>transfer_gen := transfer_gen f1 + 1\<rparr> else f1)"
  define r where "r = recover (if held f1
                    then (if transfers f1 \<noteq> 0 then status h (trace st1) (CondBroadcast fat) else 0)
                    else EPERM)
             (status h (trace st1 @ (if held f1 \<and> transfers f1 \<noteq> 0 then [CondBroadcast fat] else []))
                (MutexUnlock fat))"
  have res: "skinny_mutex_veto_transfer h s st = Some (r, st')"
    unfolding v veto_fat_eq [OF f1] r_def st'_def ..
  have g: "held f1 = held f" "transfers f1 = transfers f" "waiters f1 = waiters f"
    "transfer_gen f1 = transfer_gen f" "refcount f1 = refcount f + 1 - of_nat (word_refs st s rest fat)"
    by (simp_all add: f1_def)
  have ff: "fat_at st' fat = Some f'"
    using f1 by (simp add: st'_def f'_def fat_at_fat_set)
  have tt: "trace st' = trace st @ [Malloc ?a, MutexLock fat, AtomicSub ?a 2 0, Free ?a] @ rest
      @ (if held f \<and> transfers f \<noteq> 0 then [CondBroadcast fat] else []) @ [MutexUnlock fat]"
    by (simp add: st'_def t1 g)
  have vv: "val st' = (val st)(s := fat)"
    by (simp add: st'_def v1 fat_set_def)
  have bl: "butlast (trace st') = trace st1 @ (if held f1 \<and> transfers f1 \<noteq> 0 then [CondBroadcast fat] else [])"
    by (simp add: st'_def butlast_append)
  have bb: "held f1 \<and> transfers f1 \<noteq> 0 \<Longrightarrow> butlast (butlast (trace st')) = trace st1"
    by (simp add: bl butlast_append)
  have rr: "r = recover
        (if held f
         then (if transfers f \<noteq> 0
               then status h (butlast (butlast (trace st'))) (CondBroadcast fat) else 0)
         else EPERM)
        (status h (butlast (trace st')) (MutexUnlock fat))"
    using bb by (auto simp add: r_def bl g)
  have fields: "held f' = held f" "waiters f' = waiters f" "transfers f' = transfers f"
    "transfer_gen f' = (if held f then transfer_gen f + 1 else transfer_gen f)"
    "refcount f' = refcount f + 1 - of_nat (word_refs st s rest fat)"
    by (simp_all add: f'_def g)
  from res tt tr vv ff fields rr
  show "\<exists>r st' f' rest.
      skinny_mutex_veto_transfer h s st = Some (r, st')
    \<and> trace st' = trace st
         @ [Malloc (alloc h (trace st)), MutexLock fat,
            AtomicSub (alloc h (trace st)) 2 0, Free (alloc h (trace st))]
         @ rest
         @ (if held f \<and> transfers f \<noteq> 0 then [CondBroadcast fat] else [])
         @ [MutexUnlock fat]
    \<and> freed_at_zero rest \<and> (\<forall>ax\<in>set (subs rest). snd ax = 1)
    \<and> (\<forall>e\<in>set rest. \<not> is_wait e)
    \<and> val st' = (val st)(s := fat)
    \<and> fat_at st' fat = Some f'
    \<and> held f' = held f \<and> waiters f' = waiters f \<and> transfers f' = transfers f
    \<and> transfer_gen f' = (if held f then transfer_gen f + 1 else transfer_gen f)
    \<and> refcount f' = refcount f + 1 - of_nat (word_refs st s rest fat)
    \<and> r = recover
          (if held f
           then (if transfers f \<noteq> 0
                 then status h (butlast (butlast (trace st'))) (CondBroadcast fat) else 0)
           else EPERM)
          (status h (butlast (trace st')) (MutexUnlock fat))"
    by blast
qed

theorem veto_spec_witness:
  "1 < val pegged 5
   \<and> chain pegged (val pegged 5) [4] 2
   \<and> fat_at pegged 2
       = Some \<lparr>held = True, waiters = 1, refcount = 2, transfer_gen = 0, transfers = 1\<rparr>
   \<and> alloc (calm 3) (trace pegged) \<notin> dom (heap pegged)
   \<and> alloc (calm 3) (trace pegged) \<noteq> 0
   \<and> status (calm 3) (trace pegged @ [Malloc 3]) (MutexLock 2) = 0
   \<and> skinny_mutex_veto_transfer (calm 3) 5 pegged = Some (Ret 0, vetoed)
   \<and> trace vetoed = [Malloc 3, MutexLock 2, AtomicSub 3 2 0, Free 3, AtomicSub 4 1 1,
                      CondBroadcast 2, MutexUnlock 2]
   \<and> fat_at vetoed 2
       = Some \<lparr>held = True, waiters = 1, refcount = 3, transfer_gen = 1, transfers = 1\<rparr>
   \<and> word_refs pegged 5 [AtomicSub 4 1 1] 2 = 0"
proof -
  have h: "1 < val pegged 5" "chain pegged (val pegged 5) [4] 2"
    "fat_at pegged 2
       = Some \<lparr>held = True, waiters = 1, refcount = 2, transfer_gen = 0, transfers = 1\<rparr>"
    "alloc (calm 3) (trace pegged) \<notin> dom (heap pegged)"
    "alloc (calm 3) (trace pegged) \<noteq> 0"
    "status (calm 3) (trace pegged @ [Malloc 3]) (MutexLock 2) = 0"
    by (simp_all add: pegged_def next_of_def fat_at_def)
  have w: "word_refs pegged 5 [AtomicSub 4 1 1] 2 = 0"
    by (simp add: word_refs_def arrivals_def pegged_def)
  from veto_spec [of pegged 5 "calm 3" "[4]" 2
      "\<lparr>held = True, waiters = 1, refcount = 2, transfer_gen = 0, transfers = 1\<rparr>"] h
  have "\<exists>f'. fat_at vetoed 2 = Some f' \<and> held f' \<and> transfer_gen f' = 1"
    by (auto simp add: veto_pegged)
  with h w show ?thesis
    by (simp add: veto_pegged) (simp add: vetoed_def fat_at_def)
qed

section \<open>A try-acquire that finds the mutex held\<close>

text \<open>
  C10. Take a call of \<^verbatim>\<open>skinny_mutex_trylock\<close> that returns \<^verbatim>\<open>EBUSY\<close>, on a host whose
  \<^verbatim>\<open>pthread_mutex_lock\<close> and \<^verbatim>\<open>pthread_mutex_unlock\<close> never return \<^verbatim>\<open>EBUSY\<close> or a
  negative status (POSIX gives them no such result), with a finite heap and an
  allocator that returns fresh memory. Either the word was 1 and nothing was changed,
  or the word was a pointer from which \<open>next\<close> leads, through the pegs \<open>ps\<close>, to a fat
  mutex \<open>fat\<close>, and for this fat mutex: \<open>held\<close> was set and is still set, \<open>waiters\<close>,
  \<open>transfers\<close> and \<open>transfer_gen\<close> are unchanged, and the refcount without the
  contributions of the peg chains (\<open>net_refcount\<close>) is unchanged. The peg that the call
  allocated was decremented by 2 and freed; every object that was there before has paid
  exactly for the references to it that went away with the pegs freed on the way and
  with the word, which now points to the fat mutex (\<open>accounted\<close>); every decrement on
  the old chain is by 1, and a peg is freed exactly when its refcount has reached 0.
  When the word pointed to the fat mutex itself, the refcount, the heap and the word are
  exactly as before.
\<close>

theorem trylock_busy_frame:
  assumes ret: "skinny_mutex_trylock h s st = Some (Ret EBUSY, st')"
    and fresh: "alloc h (trace st) \<notin> dom (heap st)"
    and fin: "finite (dom (heap st))"
    and lock: "\<forall>t m. 0 \<le> status h t (MutexLock m) \<and> status h t (MutexLock m) \<noteq> EBUSY"
    and unlock: "\<forall>t m. status h t (MutexUnlock m) \<noteq> EBUSY"
  shows "(val st s = 1 \<and> st' = st)
     \<or> (1 < val st s \<and>
         (\<exists>ps fat f f' rest.
              chain st (val st s) ps fat
            \<and> fat_at st fat = Some f \<and> fat_at st' fat = Some f'
            \<and> held f \<and> held f' \<and> waiters f' = waiters f \<and> transfers f' = transfers f
            \<and> transfer_gen f' = transfer_gen f
            \<and> net_refcount st' s fat = net_refcount st s fat
            \<and> val st' = (val st)(s := fat)
            \<and> trace st' = trace st
                 @ [Malloc (alloc h (trace st)), MutexLock fat,
                    AtomicSub (alloc h (trace st)) 2 0, Free (alloc h (trace st))]
                 @ rest @ [MutexUnlock fat]
            \<and> accounted fat 1 (word_refs st s rest) rest st st'
            \<and> freed_at_zero rest \<and> (\<forall>ax\<in>set (subs rest). snd ax = 1)
            \<and> (val st s = fat \<longrightarrow> refcount f' = refcount f \<and> heap st' = heap st \<and> val st' = val st)))"
proof (cases "val st s = 0")
  case True
  with ret have False
    by (subst (asm) skinny_mutex_trylock.simps) (simp add: CAS_def EBUSY_def)
  then show ?thesis ..
next
  case nz: False
  show ?thesis
  proof (cases "val st s = 1")
    case True
    with ret have "st' = st"
      by (subst (asm) skinny_mutex_trylock.simps) simp
    with True show ?thesis by simp
  next
    case n1: False
    with nz have gt: "1 < val st s" by simp
    from ret nz n1 obtain res fatp st1 where
      peg: "fat_mutex_peg h s (val st s) st = Some (res, fatp, st1)"
      by (subst (asm) skinny_mutex_trylock.simps)
         (cases "fat_mutex_peg h s (val st s) st", auto simp add: Let_def)
    show ?thesis
    proof (cases fatp)
      case None
      with peg have "res = ENOMEM"
        by (auto simp add: fat_mutex_peg_eq split: if_splits option.splits)
      with ret nz n1 peg have False
        by (subst (asm) skinny_mutex_trylock.simps) (simp add: ENOMEM_def EBUSY_def)
      then show ?thesis ..
    next
      case (Some fat)
      let ?a = "alloc h (trace st)"
      from fat_mutex_peg_has_chain [OF peg [unfolded Some] fresh] obtain ps where
        c: "chain st (val st s) ps fat" ..
      from chain_fat [OF c] obtain f where f: "fat_at st fat = Some f" by auto
      have anz: "?a \<noteq> 0"
        using peg Some by (auto simp add: fat_mutex_peg_eq split: if_splits)
      from fat_mutex_peg_chain [OF gt c f fresh anz] peg Some obtain rest where
        res: "res = status h (trace st @ [Malloc ?a]) (MutexLock fat)"
        and t1: "trace st1 = trace st @ [Malloc ?a, MutexLock fat, AtomicSub ?a 2 0, Free ?a] @ rest"
        and v1: "val st1 = (val st)(s := fat)"
        and acc: "accounted fat 1 (word_refs st s rest) rest st st1"
        and tr: "freed_at_zero rest" "\<forall>ax\<in>set (subs rest). snd ax = 1"
        by auto
      from fat_mutex_peg_frame [OF peg [unfolded Some] fresh fin] f obtain f1 where
        f1: "fat_at st1 fat = Some f1"
        and same: "same_fields f f1"
        and net: "net_refcount st1 s fat = net_refcount st s fat"
        by auto
      from res lock have r0: "0 \<le> res" and rb: "res \<noteq> EBUSY" by simp_all
      have z: "res = 0"
      proof (rule ccontr)
        assume "res \<noteq> 0"
        with r0 have "0 < res" by simp
        with ret nz n1 peg have "res = EBUSY"
          by (subst (asm) skinny_mutex_trylock.simps) simp
        with rb show False ..
      qed
      from ret nz n1 peg z Some have tf: "trylock_fat h fat st1 = Some (Ret EBUSY, st')"
        by (subst (asm) skinny_mutex_trylock.simps) simp
      have hl: "held f1"
      proof (rule ccontr)
        assume "\<not> held f1"
        with tf f1 unlock show False
          by (auto simp add: trylock_fat_eq recover_def split: if_splits)
      qed
      from tf f1 hl have st': "st' = st1\<lparr>trace := trace st1 @ [MutexUnlock fat]\<rparr>"
        by (auto simp add: trylock_fat_eq recover_def split: if_splits)
      have f': "fat_at st' fat = Some f1"
        by (simp add: st' f1)
      have net': "net_refcount st' s fat = net_refcount st s fat"
        by (simp add: st' net)
      have acc': "accounted fat 1 (word_refs st s rest) rest st st'"
        by (rule accounted_heap_cong [OF acc]) (simp add: st')
      have t': "trace st' = trace st @ [Malloc ?a, MutexLock fat, AtomicSub ?a 2 0, Free ?a]
          @ rest @ [MutexUnlock fat]"
        by (simp add: st' t1)
      have v': "val st' = (val st)(s := fat)"
        by (simp add: st' v1)
      have direct: "val st s = fat \<longrightarrow> refcount f1 = refcount f \<and> heap st' = heap st \<and> val st' = val st"
      proof
        assume vf: "val st s = fat"
        from fat_mutex_peg_direct [OF vf f fresh anz] peg vf
        have "st1 = st\<lparr>trace := trace st @ [Malloc (alloc h (trace st)), MutexLock fat,
              AtomicSub (alloc h (trace st)) 2 0, Free (alloc h (trace st))]\<rparr>"
          by simp
        with f f1 show "refcount f1 = refcount f \<and> heap st' = heap st \<and> val st' = val st"
          by (simp add: st')
      qed
      have hf: "held f" "waiters f1 = waiters f" "transfers f1 = transfers f"
        "transfer_gen f1 = transfer_gen f"
        using same hl by (simp_all add: same_fields_def)
      from c f f' hf hl net' v' t' acc' tr direct
      have "\<exists>ps fat f f' rest.
              chain st (val st s) ps fat
            \<and> fat_at st fat = Some f \<and> fat_at st' fat = Some f'
            \<and> held f \<and> held f' \<and> waiters f' = waiters f \<and> transfers f' = transfers f
            \<and> transfer_gen f' = transfer_gen f
            \<and> net_refcount st' s fat = net_refcount st s fat
            \<and> val st' = (val st)(s := fat)
            \<and> trace st' = trace st
                 @ [Malloc (alloc h (trace st)), MutexLock fat,
                    AtomicSub (alloc h (trace st)) 2 0, Free (alloc h (trace st))]
                 @ rest @ [MutexUnlock fat]
            \<and> accounted fat 1 (word_refs st s rest) rest st st'
            \<and> freed_at_zero rest \<and> (\<forall>ax\<in>set (subs rest). snd ax = 1)
            \<and> (val st s = fat \<longrightarrow> refcount f' = refcount f \<and> heap st' = heap st \<and> val st' = val st)"
        by blast
      with gt show ?thesis by blast
    qed
  qed
qed

theorem trylock_busy_frame_witness:
  "skinny_mutex_trylock (calm 3) 5 pegged =
     Some (Ret EBUSY, unstacked\<lparr>trace := [Malloc 3, MutexLock 2, AtomicSub 3 2 0, Free 3,
                                             AtomicSub 4 1 1, MutexUnlock 2]\<rparr>)
   \<and> alloc (calm 3) (trace pegged) \<notin> dom (heap pegged)
   \<and> finite (dom (heap pegged))
   \<and> (\<forall>t m. 0 \<le> status (calm 3) t (MutexLock m) \<and> status (calm 3) t (MutexLock m) \<noteq> EBUSY)
   \<and> (\<forall>t m. status (calm 3) t (MutexUnlock m) \<noteq> EBUSY)
   \<and> 1 < val pegged 5
   \<and> chain pegged (val pegged 5) [4] 2
   \<and> fat_at pegged 2
       = Some \<lparr>held = True, waiters = 1, refcount = 2, transfer_gen = 0, transfers = 1\<rparr>
   \<and> fat_at (unstacked\<lparr>trace := [Malloc 3, MutexLock 2, AtomicSub 3 2 0, Free 3,
                                    AtomicSub 4 1 1, MutexUnlock 2]\<rparr>) 2
       = Some \<lparr>held = True, waiters = 1, refcount = 3, transfer_gen = 0, transfers = 1\<rparr>
   \<and> net_refcount (unstacked\<lparr>trace := [Malloc 3, MutexLock 2, AtomicSub 3 2 0, Free 3,
                                          AtomicSub 4 1 1, MutexUnlock 2]\<rparr>) 5 2
       = net_refcount pegged 5 2
   \<and> accounted 2 1 (word_refs pegged 5 [AtomicSub 4 1 1]) [AtomicSub 4 1 1] pegged
        (unstacked\<lparr>trace := [Malloc 3, MutexLock 2, AtomicSub 3 2 0, Free 3,
                               AtomicSub 4 1 1, MutexUnlock 2]\<rparr>)
   \<and> word_refs pegged 5 [AtomicSub 4 1 1] 4 = 1
   \<and> word_refs pegged 5 [AtomicSub 4 1 1] 2 = 0"
proof -
  let ?st' = "unstacked\<lparr>trace := [Malloc 3, MutexLock 2, AtomicSub 3 2 0, Free 3,
                                   AtomicSub 4 1 1, MutexUnlock 2]\<rparr>"
  have h: "alloc (calm 3) (trace pegged) \<notin> dom (heap pegged)" "finite (dom (heap pegged))"
    "\<forall>t m. 0 \<le> status (calm 3) t (MutexLock m) \<and> status (calm 3) t (MutexLock m) \<noteq> EBUSY"
    "\<forall>t m. status (calm 3) t (MutexUnlock m) \<noteq> EBUSY"
    by (simp_all add: pegged_def EBUSY_def)
  have g: "1 < val pegged 5" "chain pegged (val pegged 5) [4] 2"
    "fat_at pegged 2
       = Some \<lparr>held = True, waiters = 1, refcount = 2, transfer_gen = 0, transfers = 1\<rparr>"
    "fat_at ?st' 2
       = Some \<lparr>held = True, waiters = 1, refcount = 3, transfer_gen = 0, transfers = 1\<rparr>"
    "word_refs pegged 5 [AtomicSub 4 1 1] 4 = 1" "word_refs pegged 5 [AtomicSub 4 1 1] 2 = 0"
    "trace pegged = []" "alloc (calm 3) (trace pegged) = 3"
    by (simp_all add: pegged_def unstacked_def next_of_def fat_at_def word_refs_def arrivals_def)
  from trylock_busy_frame [OF trylock_pegged h] g(1) obtain ps fat f f' rest where
    c: "chain pegged (val pegged 5) ps fat"
    and net: "net_refcount ?st' 5 fat = net_refcount pegged 5 fat"
    and t: "trace ?st' = trace pegged
         @ [Malloc (alloc (calm 3) (trace pegged)), MutexLock fat,
            AtomicSub (alloc (calm 3) (trace pegged)) 2 0, Free (alloc (calm 3) (trace pegged))]
         @ rest @ [MutexUnlock fat]"
    and acc: "accounted fat 1 (word_refs pegged 5 rest) rest pegged ?st'"
    by auto
  from t have fat: "fat = 2" and "[AtomicSub 4 1 1] @ [MutexUnlock 2] = rest @ [MutexUnlock fat]"
    by (simp_all add: g)
  then have rest: "rest = [AtomicSub 4 1 1]" by simp
  from net acc h g show ?thesis
    unfolding fat rest by (simp add: trylock_pegged)
qed

end
